theory Spec2Isabelle
  imports Complex_Main "HOL-Library.Word" "HOL-Library.Char_ord" "HOL-Library.List_Lexorder"
begin

section \<open>Matrix (Matrix.h)\<close>

text \<open>
  The fields of \<^verbatim>\<open>class Matrix\<close>. The C++ \<^verbatim>\<open>float\<close> fields are held as reals: the
  operators below only test the divisor against zero and divide. The test is the same
  on both (the two float zeros are the ones that compare equal to \<open>0\<close>); the quotient of
  the model is the exact one, where the float division rounds it, overflows or gives a
  NaN. \<^verbatim>\<open>bool m_Flipped[2]\<close> is the pair of its two entries and
  \<^verbatim>\<open>float m_Elements[2][2]\<close> the list of its four.
\<close>

record Matrix =
  m_Rotation :: real
  m_FlippedX :: bool
  m_FlippedY :: bool
  m_Elements :: "real list"
  m_ElementsUpdated :: bool

text \<open>
  \<^verbatim>\<open>Matrix & operator/=(const float &rhs)
    { if (rhs) { m_Rotation /= rhs; m_ElementsUpdated = false; } return *this; }\<close>
  The returned reference is the updated object itself, so the model returns the object.
\<close>

definition Matrix_div_assign_float :: "Matrix \<Rightarrow> real \<Rightarrow> Matrix" where
  "Matrix_div_assign_float m rhs =
     (if rhs \<noteq> 0 then m\<lparr>m_Rotation := m_Rotation m / rhs, m_ElementsUpdated := False\<rparr>
      else m)"

text \<open>
  \<^verbatim>\<open>friend Matrix & operator/=(Matrix &lhs, const Matrix &rhs)
    { if (rhs.m_Rotation) { lhs.m_Rotation /= rhs.m_Rotation; lhs.m_ElementsUpdated = false; }
      return lhs; }\<close>
\<close>

definition Matrix_div_assign_Matrix :: "Matrix \<Rightarrow> Matrix \<Rightarrow> Matrix" where
  "Matrix_div_assign_Matrix lhs rhs =
     (if m_Rotation rhs \<noteq> 0
      then lhs\<lparr>m_Rotation := m_Rotation lhs / m_Rotation rhs, m_ElementsUpdated := False\<rparr>
      else lhs)"


section \<open>DataModule (DataModule.h)\<close>

text \<open>\<^verbatim>\<open>static constexpr unsigned short c_PaletteEntriesNumber = 256;\<close> (Constants.h)\<close>

definition c_PaletteEntriesNumber :: nat where
  "c_PaletteEntriesNumber = 256"

text \<open>
  \<^verbatim>\<open>class Entity::ClassInfo\<close> (Entity.h), of which the members read here are
  \<^verbatim>\<open>const std::string m_Name\<close> and \<^verbatim>\<open>const ClassInfo *m_pParentInfo\<close> (\<^verbatim>\<open>0\<close> for a root
  class, here \<open>None\<close>), with \<^verbatim>\<open>const std::string & GetName() const { return m_Name; }\<close>.
\<close>

datatype ClassInfo =
  ClassInfo (m_Name: string) (m_pParentInfo: "ClassInfo option")

definition GetName :: "ClassInfo \<Rightarrow> string" where
  "GetName c = m_Name c"

text \<open>
  \<^verbatim>\<open>class Entity\<close> (Entity.h) with its data members:
  \<^verbatim>\<open>static Entity::ClassInfo m_sClass; std::string m_PresetName;
  std::string m_PresetDescription; bool m_IsOriginalPreset; int m_DefinedInModule;
  plf::list<std::string> m_Groups; std::string m_LastGroupSearch; bool m_LastGroupResult;
  int m_RandomWeight;\<close>
  \<^verbatim>\<open>m_sClass\<close> is a static member that every subclass declares anew and the virtual
  \<^verbatim>\<open>GetClass()\<close> returns; the record holds for each Entity the one of its own class.
  \<^verbatim>\<open>m_DefinedInModule\<close> is \<open>-1\<close> as long as the Entity was not added to a module.
\<close>

record Entity =
  m_sClass :: ClassInfo
  m_PresetName :: string
  m_PresetDescription :: string
  m_IsOriginalPreset :: bool
  m_DefinedInModule :: int
  m_Groups :: "string list"
  m_LastGroupSearch :: string
  m_LastGroupResult :: bool
  m_RandomWeight :: int

text \<open>
  \<^verbatim>\<open>virtual const std::string & GetClassName() const { return m_sClass.GetName(); }\<close>, the
  exact class name of an Entity; then the names of a class and all its ancestors, along
  \<^verbatim>\<open>m_pParentInfo\<close>.
\<close>

definition GetClassName :: "Entity \<Rightarrow> string" where
  "GetClassName e = GetName (m_sClass e)"

fun ancestor_names :: "ClassInfo \<Rightarrow> string list" where
  "ancestor_names (ClassInfo name None) = [name]"
| "ancestor_names (ClassInfo name (Some parent)) = name # ancestor_names parent"

text \<open>
  \<^verbatim>\<open>struct PresetEntry { Entity *m_pEntityPreset; std::string m_FileReadFrom; ... };\<close>
  The entry owns its Entity, which the model holds by value.
\<close>

record PresetEntry =
  m_pEntityPreset :: Entity
  m_FileReadFrom :: string

text \<open>
  The members of \<^verbatim>\<open>DataModule\<close> used here:
  \<^verbatim>\<open>plf::list<std::string> m_GroupRegister\<close>,
  \<^verbatim>\<open>unsigned char m_MaterialMappings[c_PaletteEntriesNumber]\<close>,
  \<^verbatim>\<open>plf::list<PresetEntry> m_PresetList\<close> and
  \<^verbatim>\<open>std::map<std::string, plf::list<std::pair<std::string, Entity *>>> m_TypeMap\<close>, the
  map as a list of its (class name, list) pairs. The Entities of the type map are those
  of the preset list; the model keeps a copy in each place and changes both together.
\<close>

record DataModule =
  m_GroupRegister :: "string list"
  m_MaterialMappings :: "8 word list"
  m_PresetList :: "PresetEntry list"
  m_TypeMap :: "(string \<times> (string \<times> Entity) list) list"

text \<open>
  \<^verbatim>\<open>void RegisterGroup(std::string newGroup)
    { m_GroupRegister.push_back(newGroup); m_GroupRegister.sort(); m_GroupRegister.unique(); }\<close>
  \<^verbatim>\<open>sort()\<close> orders by \<^verbatim>\<open>operator<\<close> of \<^verbatim>\<open>std::string\<close>, the lexicographic order on
  the bytes; \<^verbatim>\<open>unique()\<close> removes every element equal to its predecessor.
\<close>

definition RegisterGroup :: "string \<Rightarrow> DataModule \<Rightarrow> DataModule" where
  "RegisterGroup newGroup dm =
     dm\<lparr>m_GroupRegister := remdups_adj (sort (m_GroupRegister dm @ [newGroup]))\<rparr>"

text \<open>
  \<^verbatim>\<open>int GetMaterialMapping(int materialID) const { return m_MaterialMappings[materialID]; }\<close>
  The C++ subscript has no bounds check; an index outside the array is undefined
  behaviour, which the model returns as \<open>None\<close>. Inside the array the stored
  \<^verbatim>\<open>unsigned char\<close> is widened to \<^verbatim>\<open>int\<close>.
\<close>

definition GetMaterialMapping :: "DataModule \<Rightarrow> int \<Rightarrow> int option" where
  "GetMaterialMapping dm materialID =
     (if 0 \<le> materialID \<and> nat materialID < length (m_MaterialMappings dm)
      then Some (uint (m_MaterialMappings dm ! nat materialID))
      else None)"



text \<open>
  Modelled from the spec: \<^verbatim>\<open>DataModule::AddToTypeMap\<close> is declared in the header and
  defined in DataModule.cpp, which is not among the sources. Header and spec: the new
  instance ends up in the type list of its own class and of every class it derives from.
\<close>

fun add_to_type_list ::
  "string \<Rightarrow> string \<times> Entity \<Rightarrow> (string \<times> (string \<times> Entity) list) list
   \<Rightarrow> (string \<times> (string \<times> Entity) list) list" where
  "add_to_type_list cls x [] = [(cls, [x])]"
| "add_to_type_list cls x ((c, l) # tm) =
     (if c = cls then (c, l @ [x]) # tm else (c, l) # add_to_type_list cls x tm)"

definition AddToTypeMap ::
  "Entity \<Rightarrow> (string \<times> (string \<times> Entity) list) list
   \<Rightarrow> (string \<times> (string \<times> Entity) list) list" where
  "AddToTypeMap pEntToAdd tm =
     fold (\<lambda>cls. add_to_type_list cls (m_PresetName pEntToAdd, pEntToAdd))
       (ancestor_names (m_sClass pEntToAdd)) tm"

text \<open>
  An entry for the same exact class and preset name as \<open>e\<close>, and an entry for the same
  preset name under a different exact class.
\<close>

definition exact_entry :: "Entity \<Rightarrow> PresetEntry \<Rightarrow> bool" where
  "exact_entry e p \<longleftrightarrow>
     GetClassName (m_pEntityPreset p) = GetClassName e \<and>
     m_PresetName (m_pEntityPreset p) = m_PresetName e"

definition other_class_entry :: "Entity \<Rightarrow> PresetEntry \<Rightarrow> bool" where
  "other_class_entry e p \<longleftrightarrow>
     m_PresetName (m_pEntityPreset p) = m_PresetName e \<and>
     GetClassName (m_pEntityPreset p) \<noteq> GetClassName e"

text \<open>
  Modelled from the spec: \<^verbatim>\<open>DataModule::AddEntityPreset\<close> is declared in the header
  (\<^verbatim>\<open>bool AddEntityPreset(Entity *pEntToAdd, bool overwriteSame = false,
  std::string readFromFile = "Same")\<close>) and defined in DataModule.cpp, which is not among
  the sources. The spec: if an entry with that exact class and name already exists and
  the overwrite flag is false, the call is a no-op returning "not added"; if an entry
  with the same name exists under a different exact class, the call always fails
  regardless of the overwrite flag; on accepted insertion a deep copy of the entity is
  inserted into both the ordered preset list and the type index under every ancestor
  class name; "Same" as the origin file on an overwrite keeps the previous entry's
  recorded file path. The header: the result is whether a copy of the instance was
  inserted, false if there already was an instance of that class and name unless
  overwritten, and false regardless for one of the same name but not the exact type.
\<close>

definition AddEntityPreset ::
  "Entity \<Rightarrow> bool \<Rightarrow> string \<Rightarrow> DataModule \<Rightarrow> bool \<times> DataModule" where
  "AddEntityPreset pEntToAdd overwriteSame readFromFile dm =
     (if list_ex (other_class_entry pEntToAdd) (m_PresetList dm) then (False, dm)
      else if list_ex (exact_entry pEntToAdd) (m_PresetList dm) then
        (if \<not> overwriteSame then (False, dm)
         else (True,
           dm\<lparr>m_PresetList :=
                 map (\<lambda>p. if exact_entry pEntToAdd p
                          then \<lparr>m_pEntityPreset = pEntToAdd,
                                m_FileReadFrom =
                                  (if readFromFile = ''Same'' then m_FileReadFrom p
                                   else readFromFile)\<rparr>
                          else p)
                   (m_PresetList dm),
               m_TypeMap :=
                 map (\<lambda>(cls, l).
                        (cls, map (\<lambda>(n, e).
                                 if n = m_PresetName pEntToAdd \<and>
                                    GetClassName e = GetClassName pEntToAdd
                                 then (n, pEntToAdd) else (n, e)) l))
                   (m_TypeMap dm)\<rparr>))
      else (True,
        dm\<lparr>m_PresetList :=
              m_PresetList dm @ [\<lparr>m_pEntityPreset = pEntToAdd, m_FileReadFrom = readFromFile\<rparr>],
            m_TypeMap := AddToTypeMap pEntToAdd (m_TypeMap dm)\<rparr>))"


section \<open>Input streams (std::ifstream as used by Reader)\<close>

text \<open>
  A \<^verbatim>\<open>std::ifstream\<close> is the characters not yet extracted together with the two state
  bits the Reader tests. The operations follow the C++11 unformatted input functions:
  every one of them first checks \<^verbatim>\<open>good()\<close> and sets \<^verbatim>\<open>failbit\<close> when the stream is not
  good; \<^verbatim>\<open>peek()\<close> at the end of the data sets \<^verbatim>\<open>eofbit\<close>, \<^verbatim>\<open>get()\<close> there sets
  \<^verbatim>\<open>eofbit\<close> and \<^verbatim>\<open>failbit\<close>; \<^verbatim>\<open>putback\<close> and \<^verbatim>\<open>unget\<close> clear \<^verbatim>\<open>eofbit\<close> first.
  A result \<open>None\<close> is \<^verbatim>\<open>Traits::eof()\<close>.
\<close>

record stream =
  chars :: string
  eofbit :: bool
  failbit :: bool

definition good :: "stream \<Rightarrow> bool" where
  "good st \<longleftrightarrow> \<not> eofbit st \<and> \<not> failbit st"

definition peek :: "stream \<Rightarrow> char option \<times> stream" where
  "peek st =
     (if \<not> good st then (None, st\<lparr>failbit := True\<rparr>)
      else case chars st of
             [] \<Rightarrow> (None, st\<lparr>eofbit := True\<rparr>)
           | c # cs \<Rightarrow> (Some c, st))"

definition get :: "stream \<Rightarrow> char option \<times> stream" where
  "get st =
     (if \<not> good st then (None, st\<lparr>failbit := True\<rparr>)
      else case chars st of
             [] \<Rightarrow> (None, st\<lparr>eofbit := True, failbit := True\<rparr>)
           | c # cs \<Rightarrow> (Some c, st\<lparr>chars := cs\<rparr>))"

text \<open>\<^verbatim>\<open>ignore(1)\<close>\<close>

definition ignore1 :: "stream \<Rightarrow> stream" where
  "ignore1 st =
     (if \<not> good st then st\<lparr>failbit := True\<rparr>
      else case chars st of
             [] \<Rightarrow> st\<lparr>eofbit := True\<rparr>
           | c # cs \<Rightarrow> st\<lparr>chars := cs\<rparr>)"

definition putback :: "char \<Rightarrow> stream \<Rightarrow> stream" where
  "putback c st =
     (if failbit st then st\<lparr>eofbit := False\<rparr>
      else st\<lparr>chars := c # chars st, eofbit := False\<rparr>)"

text \<open>\<^verbatim>\<open>unget()\<close> puts back the character extracted last, which the caller names.\<close>

definition unget :: "char \<Rightarrow> stream \<Rightarrow> stream" where
  "unget c st = putback c st"

text \<open>
  The conversion of the \<^verbatim>\<open>int\<close> returned by \<^verbatim>\<open>peek()\<close> and \<^verbatim>\<open>get()\<close> to \<^verbatim>\<open>char\<close>:
  \<^verbatim>\<open>Traits::eof()\<close> is \<open>-1\<close>, the byte \<open>0xFF\<close> of a signed \<^verbatim>\<open>char\<close>.
\<close>

definition as_char :: "char option \<Rightarrow> char" where
  "as_char p = (case p of None \<Rightarrow> CHR 0xFF | Some c \<Rightarrow> c)"

text \<open>
  \<^verbatim>\<open>new std::ifstream(path)\<close>: the file system is the map \<open>files\<close> from the paths that
  can be opened to their contents; a path that cannot be opened gives a stream with
  \<^verbatim>\<open>failbit\<close> set.
\<close>

definition ifstream :: "(string \<Rightarrow> string option) \<Rightarrow> string \<Rightarrow> stream" where
  "ifstream files path =
     (case files path of
        None \<Rightarrow> \<lparr>chars = [], eofbit = False, failbit = True\<rparr>
      | Some contents \<Rightarrow> \<lparr>chars = contents, eofbit = False, failbit = False\<rparr>)"

lemma peek_length: "length (chars (snd (peek st))) = length (chars st)"
  by (auto simp: peek_def split: list.splits)

lemma ignore1_length: "length (chars (ignore1 st)) \<le> length (chars st)"
  by (auto simp: ignore1_def split: list.splits)

lemma peek_good:
  assumes "good st" "chars st = c # cs"
  shows "peek st = (Some c, st)"
  using assms by (simp add: peek_def)

lemma get_good:
  assumes "good st" "chars st = c # cs"
  shows "get st = (Some c, st\<lparr>chars := cs\<rparr>)"
  using assms by (simp add: get_def)

lemma ignore1_good:
  assumes "good st" "chars st = c # cs"
  shows "ignore1 st = st\<lparr>chars := cs\<rparr>"
  using assms by (simp add: ignore1_def)


section \<open>Reader (Reader.cpp)\<close>

subsection \<open>State\<close>

text \<open>
  \<^verbatim>\<open>StreamInfo(m_pStream, m_FilePath, m_CurrentLine, m_PreviousIndent)\<close>, an entry of
  \<^verbatim>\<open>m_StreamStack\<close>. The stream is held by pointer.
\<close>

record StreamInfo =
  si_pStream :: nat
  si_FilePath :: string
  si_CurrentLine :: int
  si_PreviousIndent :: int

text \<open>
  The members that \<^verbatim>\<open>Reader::Clear\<close> lists and the reading functions use. The
  \<^verbatim>\<open>std::ifstream\<close> objects live in the store \<open>streams\<close>: an address is an index into it,
  \<^verbatim>\<open>new\<close> appends, \<^verbatim>\<open>delete\<close> leaves \<open>None\<close> behind, so that \<^verbatim>\<open>m_pStream\<close> and the
  pointers saved in \<^verbatim>\<open>m_StreamStack\<close> can name the same object. The head of the list
  \<open>m_StreamStack\<close> is \<^verbatim>\<open>m_StreamStack.back()\<close>. The \<^verbatim>\<open>int\<close> counters are integers (signed
  overflow is undefined in C++ and out of reach of any file). The progress callback
  \<^verbatim>\<open>m_fpReportProgress\<close> and \<^verbatim>\<open>m_ReportTabs\<close> only produce text for it and are left out.
\<close>

record Reader =
  streams :: "stream option list"
  m_pStream :: nat
  m_FilePath :: string
  m_CurrentLine :: int
  m_StreamStack :: "StreamInfo list"
  m_PreviousIndent :: int
  m_IndentDifference :: int
  m_ObjectEndings :: int
  m_EndOfStreams :: bool
  m_FileName :: string
  m_SkipIncludes :: bool

text \<open>\<^verbatim>\<open>*m_pStream\<close>: \<open>None\<close> when the pointer does not name a live stream.\<close>

definition cur_stream :: "Reader \<Rightarrow> stream option" where
  "cur_stream r = (if m_pStream r < length (streams r) then streams r ! m_pStream r else None)"

text \<open>Writing the stream behind \<^verbatim>\<open>m_pStream\<close> back after it was read from.\<close>

definition set_stream :: "stream \<Rightarrow> Reader \<Rightarrow> Reader" where
  "set_stream st r = r\<lparr>streams := (streams r)[m_pStream r := Some st]\<rparr>"

text \<open>\<^verbatim>\<open>delete m_pStream;\<close>\<close>

definition delete_stream :: "Reader \<Rightarrow> Reader" where
  "delete_stream r = r\<lparr>streams := (streams r)[m_pStream r := None]\<rparr>"

text \<open>
  What stops a read: \<open>Abort\<close> is \<^verbatim>\<open>RTEAbort\<close> with the description, the file path and
  the line that \<^verbatim>\<open>ReportError\<close> formats into its message; \<open>InvalidStream\<close> is the use
  of a stream pointer that names no live stream (undefined behaviour in C++);
  \<open>OutOfRange\<close> is the \<^verbatim>\<open>std::out_of_range\<close> that \<^verbatim>\<open>std::string::substr\<close> throws and
  nothing catches.
\<close>

datatype error =
    Abort string string int
  | InvalidStream
  | OutOfRange

text \<open>
  Modelled from the spec: the macro \<^verbatim>\<open>RTEAbort\<close> is not among the sources. The spec says
  of error reporting that any stream failure or malformed input aborts the whole load
  with a message carrying the originating file path and current line number; so
  \<^verbatim>\<open>RTEAbort\<close> never returns, and whatever follows it in a function body is not run.
\<close>

definition RTEAbort :: "error \<Rightarrow> error + 'a" where
  "RTEAbort e = Inl e"

text \<open>
  \<^verbatim>\<open>void Reader::ReportError(std::string errorDesc) {
    sprintf_s(error, sizeof(error), "%s Error happened in %s at line %i!",
              errorDesc.c_str(), m_FilePath.c_str(), m_CurrentLine);
    RTEAbort(error); }\<close>
\<close>

definition ReportError :: "string \<Rightarrow> Reader \<Rightarrow> error + 'a" where
  "ReportError errorDesc r = RTEAbort (Abort errorDesc (m_FilePath r) (m_CurrentLine r))"

text \<open>
  \<^verbatim>\<open>int pos = s.find_first_of(c)\<close>, with \<^verbatim>\<open>std::string::npos\<close> stored in an \<^verbatim>\<open>int\<close> as
  \<open>-1\<close>; likewise \<^verbatim>\<open>find_first_not_of\<close> and \<^verbatim>\<open>find_last_not_of\<close>.
\<close>

definition find_first_of :: "char \<Rightarrow> string \<Rightarrow> int" where
  "find_first_of c s =
     (if c \<in> set s then int (length (takeWhile (\<lambda>x. x \<noteq> c) s)) else - 1)"

definition find_first_not_of :: "char \<Rightarrow> string \<Rightarrow> int" where
  "find_first_not_of c s =
     (if \<exists>x \<in> set s. x \<noteq> c then int (length (takeWhile (\<lambda>x. x = c) s)) else - 1)"

definition find_last_not_of :: "char \<Rightarrow> string \<Rightarrow> int" where
  "find_last_not_of c s =
     (if \<exists>x \<in> set s. x \<noteq> c
      then int (length s) - 1 - int (length (takeWhile (\<lambda>x. x = c) (rev s)))
      else - 1)"

text \<open>
  \<^verbatim>\<open>s.substr(pos, n)\<close> where \<^verbatim>\<open>pos\<close> comes from an \<^verbatim>\<open>int\<close>: a negative \<^verbatim>\<open>int\<close> becomes a
  huge \<^verbatim>\<open>size_t\<close>, and \<^verbatim>\<open>substr\<close> throws when \<^verbatim>\<open>pos > size()\<close>.
\<close>

definition substr :: "string \<Rightarrow> int \<Rightarrow> int \<Rightarrow> error + string" where
  "substr s pos n =
     (if pos < 0 \<or> int (length s) < pos then Inl OutOfRange
      else Inr (take (nat n) (drop (nat pos) s)))"

text \<open>
  The file name as \<^verbatim>\<open>StartIncludeFile\<close> and \<^verbatim>\<open>EndIncludeFile\<close> extract it:
  \<^verbatim>\<open>int firstSlashPos = m_FilePath.find_first_of('/');
  if (firstSlashPos == std::string::npos) { firstSlashPos = m_FilePath.find_first_of('\\'); }
  m_FileName = m_FilePath.substr(firstSlashPos + 1);\<close>
\<close>

definition FileNameOf :: "string \<Rightarrow> string" where
  "FileNameOf path =
     (let firstSlashPos = find_first_of (CHR ''/'') path;
          firstSlashPos =
            (if firstSlashPos = - 1 then find_first_of (CHR 0x5C) path else firstSlashPos)
      in drop (nat (firstSlashPos + 1)) path)"

subsection \<open>DiscardEmptySpace and EndIncludeFile\<close>

text \<open>
  The inner loop of a line comment, entered on a good stream standing at the second
  slash: \<^verbatim>\<open>while (m_pStream->peek() != '\n' && m_pStream->peek() != '\r' && !m_pStream->eof())
  { m_pStream->ignore(1); }\<close>. When the data runs out the first \<^verbatim>\<open>peek\<close> sets
  \<^verbatim>\<open>eofbit\<close> and the second, on a stream no longer good, \<^verbatim>\<open>failbit\<close>.
\<close>

fun SkipToLineEnd :: "string \<Rightarrow> string" where
  "SkipToLineEnd [] = []"
| "SkipToLineEnd (c # cs) =
     (if c = CHR 0x0A \<or> c = CHR 0x0D then c # cs else SkipToLineEnd cs)"

definition LineComment :: "stream \<Rightarrow> stream" where
  "LineComment st =
     (let rest = SkipToLineEnd (chars st)
      in st\<lparr>chars := rest, eofbit := (rest = []), failbit := (rest = [])\<rparr>)"

text \<open>
  The inner loop of a block comment, entered on a good stream standing at the star of
  the opening: \<^verbatim>\<open>while (!((temp2 = m_pStream->get()) == '*' && m_pStream->peek() == '/')
  && !m_pStream->eof()) { if (temp2 == '\n') { ++m_CurrentLine; } }\<close>. The result is the
  rest of the data (standing at the closing slash when the end of the comment was found),
  \<^verbatim>\<open>eofbit\<close>, \<^verbatim>\<open>failbit\<close> and the line counter.
\<close>

fun BlockCommentScan :: "string \<Rightarrow> int \<Rightarrow> string \<times> bool \<times> bool \<times> int" where
  "BlockCommentScan [] line = ([], True, True, line)"
| "BlockCommentScan (c # cs) line =
     (if c = CHR ''*'' then
        (case cs of
           [] \<Rightarrow> ([], True, False, line)
         | d # ds \<Rightarrow> if d = CHR ''/'' then (cs, False, False, line) else BlockCommentScan cs line)
      else BlockCommentScan cs (if c = CHR 0x0A then line + 1 else line))"

definition BlockComment :: "stream \<Rightarrow> int \<Rightarrow> stream \<times> int" where
  "BlockComment st line =
     (case BlockCommentScan (chars st) line of
        (rest, e, f, line') \<Rightarrow> (st\<lparr>chars := rest, eofbit := e, failbit := f\<rparr>, line'))"

text \<open>
  How the \<^verbatim>\<open>while (true)\<close> loop of \<^verbatim>\<open>DiscardEmptySpace\<close> ends: by \<^verbatim>\<open>break\<close> at real
  content (with the locals \<^verbatim>\<open>indent\<close> and \<^verbatim>\<open>ateLine\<close>), at the end of the stream
  (\<^verbatim>\<open>return EndIncludeFile()\<close>), or at the \<^verbatim>\<open>ReportError\<close> of \<^verbatim>\<open>peek == -1\<close>. Each carries
  the stream and \<^verbatim>\<open>m_CurrentLine\<close> as the loop left them.
\<close>

datatype skip_result =
    Content stream int bool int
  | EndOfStream stream int
  | Junk stream int

datatype skip_step =
    Continue stream int bool int
  | Stop skip_result

text \<open>
  One pass through the body of the loop, on the stream, \<^verbatim>\<open>indent\<close>, \<^verbatim>\<open>ateLine\<close> and
  \<^verbatim>\<open>m_CurrentLine\<close>:
  \<^verbatim>\<open>peek = m_pStream->peek();
  if (m_pStream->eof()) { return EndIncludeFile(); }
  if (peek == -1) { ReportError(...); }
  if (peek == ' ') { m_pStream->ignore(1); }
  else if (peek == '\t') { indent++; m_pStream->ignore(1); }
  else if (peek == '\n' || peek == '\r') {
    if (peek == '\n') { m_CurrentLine++; ... }
    indent = 0; ateLine = true; m_pStream->ignore(1);
  } else if (m_pStream->peek() == '/') {
    char temp = m_pStream->get();
    if (m_pStream->peek() == '/') { (line comment loop) }
    else if (m_pStream->peek() == '*') { (block comment loop)
      if (!m_pStream->eof()) { m_pStream->ignore(1); } }
    else { m_pStream->putback(temp); break; }
  } else { break; }\<close>
\<close>

definition DiscardStep :: "stream \<Rightarrow> int \<Rightarrow> bool \<Rightarrow> int \<Rightarrow> skip_step" where
  "DiscardStep st indent ateLine line =
     (case peek st of (p, st1) \<Rightarrow>
        if eofbit st1 then Stop (EndOfStream st1 line)
        else if as_char p = CHR 0xFF then Stop (Junk st1 line)
        else if as_char p = CHR '' '' then Continue (ignore1 st1) indent ateLine line
        else if as_char p = CHR 0x09 then Continue (ignore1 st1) (indent + 1) ateLine line
        else if as_char p = CHR 0x0A \<or> as_char p = CHR 0x0D then
          Continue (ignore1 st1) 0 True (if as_char p = CHR 0x0A then line + 1 else line)
        else if fst (peek st1) = Some (CHR ''/'') then
          (case get st1 of (temp, st2) \<Rightarrow>
             (case peek st2 of (q, st3) \<Rightarrow>
                if q = Some (CHR ''/'') then Continue (LineComment st3) indent ateLine line
                else (case peek st3 of (q', st4) \<Rightarrow>
                  if q' = Some (CHR ''*'') then
                    (case BlockComment st4 line of (st5, line') \<Rightarrow>
                       Continue (if eofbit st5 then st5 else ignore1 st5) indent ateLine line')
                  else Stop (Content (putback (as_char temp) st4) indent ateLine line))))
        else Stop (Content st1 indent ateLine line))"

lemma SkipToLineEnd_length: "length (SkipToLineEnd cs) \<le> length cs"
  by (induction cs) auto

lemma BlockCommentScan_length: "length (fst (BlockCommentScan cs line)) \<le> length cs"
proof (induction cs arbitrary: line)
  case Nil
  show ?case by simp
next
  case (Cons c cs)
  have ih: "length (fst (BlockCommentScan cs l)) \<le> Suc (length cs)" for l
    using Cons [of l] by simp
  show ?case
  proof (cases cs)
    case Nil
    then show ?thesis by simp
  next
    case (Cons d ds)
    with ih show ?thesis by simp
  qed
qed

lemma LineComment_length: "length (chars (LineComment st)) \<le> length (chars st)"
  by (simp add: LineComment_def Let_def SkipToLineEnd_length)

lemma BlockComment_length: "length (chars (fst (BlockComment st line))) \<le> length (chars st)"
  using BlockCommentScan_length [of "chars st" line]
  by (auto simp: BlockComment_def split: prod.splits)

text \<open>The step on a good stream with data, by its first character, and otherwise.\<close>

lemma DiscardStep_good:
  assumes "good st" "chars st = c # cs"
  shows "DiscardStep st indent ateLine line =
     (if c = CHR 0xFF then Stop (Junk st line)
      else if c = CHR '' '' then Continue (st\<lparr>chars := cs\<rparr>) indent ateLine line
      else if c = CHR 0x09 then Continue (st\<lparr>chars := cs\<rparr>) (indent + 1) ateLine line
      else if c = CHR 0x0A then Continue (st\<lparr>chars := cs\<rparr>) 0 True (line + 1)
      else if c = CHR 0x0D then Continue (st\<lparr>chars := cs\<rparr>) 0 True line
      else if c = CHR ''/'' then
        (if cs = [] then Stop (Content (st\<lparr>chars := [], failbit := True\<rparr>) indent ateLine line)
         else if hd cs = CHR ''/'' then
           Continue (LineComment (st\<lparr>chars := cs\<rparr>)) indent ateLine line
         else if hd cs = CHR ''*'' then
           Continue (if eofbit (fst (BlockComment (st\<lparr>chars := cs\<rparr>) line))
                     then fst (BlockComment (st\<lparr>chars := cs\<rparr>) line)
                     else ignore1 (fst (BlockComment (st\<lparr>chars := cs\<rparr>) line)))
                    indent ateLine (snd (BlockComment (st\<lparr>chars := cs\<rparr>) line))
         else Stop (Content st indent ateLine line))
      else Stop (Content st indent ateLine line))"
  using assms
  by (cases cs)
     (simp_all add: DiscardStep_def peek_def get_def ignore1_good putback_def good_def as_char_def
        case_prod_beta)

lemma DiscardStep_not_good:
  assumes "\<not> good st"
  shows "DiscardStep st indent ateLine line =
     (if eofbit st then Stop (EndOfStream (st\<lparr>failbit := True\<rparr>) line)
      else Stop (Junk (st\<lparr>failbit := True\<rparr>) line))"
  using assms by (simp add: DiscardStep_def peek_def as_char_def)

lemma DiscardStep_empty:
  assumes "good st" "chars st = []"
  shows "DiscardStep st indent ateLine line = Stop (EndOfStream (st\<lparr>eofbit := True\<rparr>) line)"
  using assms by (simp add: DiscardStep_def peek_def as_char_def)

lemma DiscardStep_Continue_shorter:
  assumes "DiscardStep st indent ateLine line = Continue st' indent' ateLine' line'"
  shows "length (chars st') < length (chars st)"
proof (cases "good st")
  case False
  with assms show ?thesis by (simp add: DiscardStep_not_good split: if_splits)
next
  case True
  show ?thesis
  proof (cases "chars st")
    case Nil
    with True assms show ?thesis by (simp add: DiscardStep_empty)
  next
    case (Cons c cs)
    let ?st = "st\<lparr>chars := cs\<rparr>"
    have lc: "length (chars (LineComment ?st)) \<le> length cs"
      using LineComment_length [of ?st] by simp
    have bc: "length (chars (fst (BlockComment ?st line))) \<le> length cs"
      using BlockComment_length [of ?st line] by simp
    have ig: "length (chars (ignore1 (fst (BlockComment ?st line)))) \<le> length cs"
      using ignore1_length [of "fst (BlockComment ?st line)"] bc by simp
    have "st' = ?st \<or> st' = LineComment ?st \<or> st' = fst (BlockComment ?st line)
          \<or> st' = ignore1 (fst (BlockComment ?st line))"
      using assms unfolding DiscardStep_good [OF True Cons]
      by (simp split: if_splits)
    with lc bc ig Cons show ?thesis by auto
  qed
qed

text \<open>The loop: the step repeated until it stops.\<close>

function DiscardLoop :: "stream \<Rightarrow> int \<Rightarrow> bool \<Rightarrow> int \<Rightarrow> skip_result" where
  "DiscardLoop st indent ateLine line =
     (case DiscardStep st indent ateLine line of
        Continue st' indent' ateLine' line' \<Rightarrow> DiscardLoop st' indent' ateLine' line'
      | Stop r \<Rightarrow> r)"
  by pat_completeness auto
termination
  apply (relation "measure (\<lambda>(st, indent, ateLine, line). length (chars st))")
   apply simp
  apply (simp only: in_measure prod.case)
  apply (erule DiscardStep_Continue_shorter)
  done

declare DiscardLoop.simps [simp del]

text \<open>
  \<^verbatim>\<open>bool Reader::DiscardEmptySpace()\<close>: the loop with \<^verbatim>\<open>indent = 0\<close> and
  \<^verbatim>\<open>ateLine = false\<close>, then
  \<^verbatim>\<open>if (ateLine) { m_IndentDifference = indent - m_PreviousIndent; m_PreviousIndent = indent; }
  return true;\<close>

  \<^verbatim>\<open>bool Reader::EndIncludeFile()\<close>:
  \<^verbatim>\<open>if (m_StreamStack.empty()) { m_EndOfStreams = true; return false; }
  delete m_pStream;
  m_pStream = m_StreamStack.back().m_pStream;
  m_FilePath = m_StreamStack.back().m_FilePath;
  m_CurrentLine = m_StreamStack.back().m_CurrentLine;
  m_PreviousIndent += m_StreamStack.back().m_PreviousIndent;
  m_StreamStack.pop_back();
  (m_FileName = ...)
  DiscardEmptySpace();
  return true;\<close>
  The two call each other; every call of \<open>EndIncludeFile\<close> that comes back to
  \<open>DiscardEmptySpace\<close> has popped a frame.
\<close>

function DiscardEmptySpace :: "Reader \<Rightarrow> error + bool \<times> Reader"
  and EndIncludeFile :: "Reader \<Rightarrow> error + bool \<times> Reader" where
  "DiscardEmptySpace r =
     (case cur_stream r of
        None \<Rightarrow> Inl InvalidStream
      | Some st \<Rightarrow>
         (case DiscardLoop st 0 False (m_CurrentLine r) of
            EndOfStream st' line \<Rightarrow> EndIncludeFile (set_stream st' (r\<lparr>m_CurrentLine := line\<rparr>))
          | Junk st' line \<Rightarrow>
              ReportError
                ''Something went wrong reading the line; make sure it is providing the expected type''
                (set_stream st' (r\<lparr>m_CurrentLine := line\<rparr>))
          | Content st' indent ateLine line \<Rightarrow>
              Inr (True,
                if ateLine
                then (set_stream st' (r\<lparr>m_CurrentLine := line\<rparr>))
                       \<lparr>m_IndentDifference := indent - m_PreviousIndent r,
                        m_PreviousIndent := indent\<rparr>
                else set_stream st' (r\<lparr>m_CurrentLine := line\<rparr>))))"
| "EndIncludeFile r =
     (case m_StreamStack r of
        [] \<Rightarrow> Inr (False, r\<lparr>m_EndOfStreams := True\<rparr>)
      | back # rest \<Rightarrow>
         (case cur_stream r of
            None \<Rightarrow> Inl InvalidStream
          | Some st \<Rightarrow>
             (case DiscardEmptySpace
                     ((delete_stream r)
                        \<lparr>m_pStream := si_pStream back,
                         m_FilePath := si_FilePath back,
                         m_CurrentLine := si_CurrentLine back,
                         m_PreviousIndent := m_PreviousIndent r + si_PreviousIndent back,
                         m_StreamStack := rest,
                         m_FileName := FileNameOf (si_FilePath back)\<rparr>) of
                Inl e \<Rightarrow> Inl e
              | Inr (b, r') \<Rightarrow> Inr (True, r'))))"
  by pat_completeness auto
termination
  apply (relation "measure (\<lambda>x. case x of Inl r \<Rightarrow> 2 * length (m_StreamStack r) + 1
                                         | Inr r \<Rightarrow> 2 * length (m_StreamStack r))")
    apply (simp_all add: set_stream_def delete_stream_def)
  done

declare DiscardEmptySpace.simps [simp del] EndIncludeFile.simps [simp del]

subsection \<open>NextProperty\<close>

text \<open>
  \<^verbatim>\<open>bool Reader::NextProperty() {
    if (!DiscardEmptySpace() || m_EndOfStreams) { return false; }
    if (m_ObjectEndings < -m_IndentDifference) { m_ObjectEndings++; return false; }
    m_ObjectEndings = 0;
    return true; }\<close>
\<close>

definition NextProperty :: "Reader \<Rightarrow> error + bool \<times> Reader" where
  "NextProperty r =
     (case DiscardEmptySpace r of
        Inl e \<Rightarrow> Inl e
      | Inr (b, r1) \<Rightarrow>
          if \<not> b \<or> m_EndOfStreams r1 then Inr (False, r1)
          else if m_ObjectEndings r1 < - m_IndentDifference r1
               then Inr (False, r1\<lparr>m_ObjectEndings := m_ObjectEndings r1 + 1\<rparr>)
               else Inr (True, r1\<lparr>m_ObjectEndings := 0\<rparr>))"

text \<open>
  A caller that calls \<open>NextProperty\<close> \<open>n\<close> times in a row, with the values it gets back
  in order.
\<close>

fun NextProperty_n :: "nat \<Rightarrow> Reader \<Rightarrow> error + bool list \<times> Reader" where
  "NextProperty_n 0 r = Inr ([], r)"
| "NextProperty_n (Suc n) r =
     (case NextProperty r of
        Inl e \<Rightarrow> Inl e
      | Inr (b, r1) \<Rightarrow>
         (case NextProperty_n n r1 of
            Inl e \<Rightarrow> Inl e
          | Inr (bs, r2) \<Rightarrow> Inr (b # bs, r2)))"

subsection \<open>ReadLine, TrimString and ReadPropValue\<close>

text \<open>How the loop of \<^verbatim>\<open>std::string Reader::ReadLine()\<close> ends: normally, or at its \<^verbatim>\<open>ReportError\<close>.\<close>

datatype line_result =
    LineDone stream string
  | LineFailed stream

datatype line_step =
    LineMore stream char string
  | LineStop line_result

text \<open>
  One test of the loop condition and pass through the body, on the stream, the local
  \<^verbatim>\<open>peek\<close> and \<^verbatim>\<open>retString\<close>:
  \<^verbatim>\<open>while (peek != '\n' && peek != '\r' && peek != '\t') {
    temp = m_pStream->get();
    if (peek == '/' && m_pStream->peek() == '/') { m_pStream->unget(); break; }
    if (m_pStream->eof()) { break; }
    if (!m_pStream->good()) { ReportError("Stream failed for some reason"); }
    retString.append(1, temp);
    peek = m_pStream->peek();
  }\<close>
\<close>

definition ReadLineStep :: "stream \<Rightarrow> char \<Rightarrow> string \<Rightarrow> line_step" where
  "ReadLineStep st pk retString =
     (if pk \<noteq> CHR 0x0A \<and> pk \<noteq> CHR 0x0D \<and> pk \<noteq> CHR 0x09 then
        (case get st of (temp, st1) \<Rightarrow>
           (case (if pk = CHR ''/'' then peek st1 else (None, st1)) of (q, st2) \<Rightarrow>
              if pk = CHR ''/'' \<and> q = Some (CHR ''/'')
              then LineStop (LineDone (unget (as_char temp) st2) retString)
              else if eofbit st2 then LineStop (LineDone st2 retString)
              else if \<not> good st2 then LineStop (LineFailed st2)
              else LineMore (snd (peek st2)) (as_char (fst (peek st2)))
                     (retString @ [as_char temp])))
      else LineStop (LineDone st retString))"

lemma ReadLineStep_More_shorter:
  assumes "ReadLineStep st pk ret = LineMore st' pk' ret'"
  shows "length (chars st') < length (chars st)"
proof -
  obtain temp st1 where g: "get st = (temp, st1)" by (cases "get st")
  obtain q st2 where p: "(if pk = CHR ''/'' then peek st1 else (None, st1)) = (q, st2)"
    by (cases "if pk = CHR ''/'' then peek st1 else (None, st1)")
  from assms g p have a: "good st2" "st' = snd (peek st2)"
    by (auto simp: ReadLineStep_def split: if_splits)
  from p a have b: "good st1" "length (chars st2) = length (chars st1)"
    by (auto simp: peek_def good_def split: if_splits list.splits)
  from g b have "length (chars st1) < length (chars st)"
    by (auto simp: get_def good_def split: if_splits list.splits)
  with a b peek_length [of st2] show ?thesis by simp
qed

function ReadLineLoop :: "stream \<Rightarrow> char \<Rightarrow> string \<Rightarrow> line_result" where
  "ReadLineLoop st pk retString =
     (case ReadLineStep st pk retString of
        LineMore st' pk' retString' \<Rightarrow> ReadLineLoop st' pk' retString'
      | LineStop res \<Rightarrow> res)"
  by pat_completeness auto
termination
  apply (relation "measure (\<lambda>(st, pk, retString). length (chars st))")
   apply simp
  apply (simp only: in_measure prod.case)
  apply (erule ReadLineStep_More_shorter)
  done

declare ReadLineLoop.simps [simp del]

text \<open>
  \<^verbatim>\<open>std::string Reader::ReadLine() {
    DiscardEmptySpace();
    std::string retString; char temp; char peek = m_pStream->peek();
    (loop)
    return retString; }\<close>
\<close>

definition ReadLine :: "Reader \<Rightarrow> error + string \<times> Reader" where
  "ReadLine r =
     (case DiscardEmptySpace r of
        Inl e \<Rightarrow> Inl e
      | Inr (b, r1) \<Rightarrow>
         (case cur_stream r1 of
            None \<Rightarrow> Inl InvalidStream
          | Some st \<Rightarrow>
             (case ReadLineLoop (snd (peek st)) (as_char (fst (peek st))) [] of
                LineDone st' retString \<Rightarrow> Inr (retString, set_stream st' r1)
              | LineFailed st' \<Rightarrow>
                  ReportError ''Stream failed for some reason'' (set_stream st' r1))))"

text \<open>
  \<^verbatim>\<open>std::string Reader::TrimString(std::string &stringToTrim) {
    if (stringToTrim.empty()) { return ""; }
    int start = stringToTrim.find_first_not_of(' ');
    int end = stringToTrim.find_last_not_of(' ');
    if (start > end) { return ""; }
    else if (start == 0 && end == stringToTrim.size() - 1) { return stringToTrim; }
    return stringToTrim.substr(start, (end - start) + 1); }\<close>
\<close>

definition TrimString :: "string \<Rightarrow> error + string" where
  "TrimString stringToTrim =
     (if stringToTrim = [] then Inr []
      else
        let start = find_first_not_of (CHR '' '') stringToTrim;
            end = find_last_not_of (CHR '' '') stringToTrim
        in if start > end then Inr []
           else if start = 0 \<and> end = int (length stringToTrim) - 1 then Inr stringToTrim
           else substr stringToTrim start ((end - start) + 1))"

text \<open>
  \<^verbatim>\<open>std::string Reader::ReadPropValue() {
    std::string fullLine = ReadLine();
    int begin = fullLine.find_first_of('=');
    std::string subStr = (begin == std::string::npos ? fullLine : fullLine.substr(begin + 1));
    return TrimString(subStr); }\<close>
\<close>

definition ReadPropValue :: "Reader \<Rightarrow> error + string \<times> Reader" where
  "ReadPropValue r =
     (case ReadLine r of
        Inl e \<Rightarrow> Inl e
      | Inr (fullLine, r1) \<Rightarrow>
          let begin = find_first_of (CHR ''='') fullLine;
              subStr = (if begin = - 1 then fullLine else drop (nat (begin + 1)) fullLine)
          in (case TrimString subStr of
                Inl e \<Rightarrow> Inl e
              | Inr v \<Rightarrow> Inr (v, r1)))"

subsection \<open>StartIncludeFile\<close>

text \<open>
  \<^verbatim>\<open>bool Reader::StartIncludeFile() {
    m_StreamStack.push_back(StreamInfo(m_pStream, m_FilePath, m_CurrentLine, m_PreviousIndent));
    m_FilePath = ReadPropValue();
    m_pStream = new std::ifstream(m_FilePath.c_str());
    if (m_pStream->fail()) {
      delete m_pStream;
      m_pStream = m_StreamStack.back().m_pStream;
      m_FilePath = m_StreamStack.back().m_FilePath;
      m_CurrentLine = m_StreamStack.back().m_CurrentLine;
      m_PreviousIndent = m_StreamStack.back().m_PreviousIndent;
      m_StreamStack.pop_back();
      ReportError("Failed to open included data file");
      DiscardEmptySpace();
      return false;
    }
    m_CurrentLine = 1;
    m_PreviousIndent = 0;
    (m_FileName = ...)
    DiscardEmptySpace();
    return true; }\<close>
  \<^verbatim>\<open>ReportError\<close> does not return, so the two statements after it are never run.
\<close>

definition StartIncludeFile ::
  "(string \<Rightarrow> string option) \<Rightarrow> Reader \<Rightarrow> error + bool \<times> Reader" where
  "StartIncludeFile files r =
     (case ReadPropValue
             (r\<lparr>m_StreamStack :=
                  \<lparr>si_pStream = m_pStream r, si_FilePath = m_FilePath r,
                   si_CurrentLine = m_CurrentLine r, si_PreviousIndent = m_PreviousIndent r\<rparr>
                  # m_StreamStack r\<rparr>) of
        Inl e \<Rightarrow> Inl e
      | Inr (path, r1) \<Rightarrow>
          let r2 = r1\<lparr>m_FilePath := path,
                      streams := streams r1 @ [Some (ifstream files path)],
                      m_pStream := length (streams r1)\<rparr>
          in if failbit (ifstream files path) then
               (case m_StreamStack r2 of
                  [] \<Rightarrow> Inl InvalidStream
                | back # rest \<Rightarrow>
                    ReportError ''Failed to open included data file''
                      ((delete_stream r2)
                         \<lparr>m_pStream := si_pStream back,
                          m_FilePath := si_FilePath back,
                          m_CurrentLine := si_CurrentLine back,
                          m_PreviousIndent := si_PreviousIndent back,
                          m_StreamStack := rest\<rparr>))
             else
               (case DiscardEmptySpace
                       (r2\<lparr>m_CurrentLine := 1, m_PreviousIndent := 0,
                           m_FileName := FileNameOf path\<rparr>) of
                  Inl e \<Rightarrow> Inl e
                | Inr (b, r3) \<Rightarrow> Inr (True, r3)))"

subsection \<open>ReadPropName\<close>

text \<open>
  How the \<^verbatim>\<open>while (true)\<close> loop of \<^verbatim>\<open>ReadPropName\<close> ends: at the \<^verbatim>\<open>=\<close>, at the
  \<^verbatim>\<open>ReportError\<close> for a line break or tab, at the end of the stream, or at the
  \<^verbatim>\<open>ReportError\<close> for a failed stream.
\<close>

datatype name_result =
    NameDone stream string
  | NameNoValue stream
  | NameEof stream string
  | NameFailed stream

datatype name_step =
    NameMore stream string
  | NameStop name_result

text \<open>
  One pass through the body:
  \<^verbatim>\<open>peek = m_pStream->peek();
  if (peek == '=') { m_pStream->ignore(1); break; }
  if (peek == '\n' || peek == '\r' || peek == '\t') {
    ReportError("Property name wasn't followed by a value"); }
  temp = m_pStream->get();
  if (m_pStream->eof()) { EndIncludeFile(); break; }
  if (!m_pStream->good()) { ReportError("Stream failed for some reason"); }
  retString.append(1, temp);\<close>
\<close>

definition ReadNameStep :: "stream \<Rightarrow> string \<Rightarrow> name_step" where
  "ReadNameStep st retString =
     (case peek st of (p, st1) \<Rightarrow>
        if as_char p = CHR ''='' then NameStop (NameDone (ignore1 st1) retString)
        else if as_char p = CHR 0x0A \<or> as_char p = CHR 0x0D \<or> as_char p = CHR 0x09
        then NameStop (NameNoValue st1)
        else (case get st1 of (temp, st2) \<Rightarrow>
                if eofbit st2 then NameStop (NameEof st2 retString)
                else if \<not> good st2 then NameStop (NameFailed st2)
                else NameMore st2 (retString @ [as_char temp])))"

lemma ReadNameStep_More_shorter:
  assumes "ReadNameStep st ret = NameMore st' ret'"
  shows "length (chars st') < length (chars st)"
proof -
  obtain p st1 where p: "peek st = (p, st1)" by (cases "peek st")
  obtain temp st2 where g: "get st1 = (temp, st2)" by (cases "get st1")
  from assms p g have a: "good st2" "st' = st2"
    by (auto simp: ReadNameStep_def split: if_splits)
  from g a have b: "good st1" "length (chars st2) < length (chars st1)"
    by (auto simp: get_def good_def split: if_splits list.splits)
  from p have "length (chars st1) = length (chars st)"
    using peek_length [of st] by simp
  with a b show ?thesis by simp
qed

function ReadNameLoop :: "stream \<Rightarrow> string \<Rightarrow> name_result" where
  "ReadNameLoop st retString =
     (case ReadNameStep st retString of
        NameMore st' retString' \<Rightarrow> ReadNameLoop st' retString'
      | NameStop res \<Rightarrow> res)"
  by pat_completeness auto
termination
  apply (relation "measure (\<lambda>(st, retString). length (chars st))")
   apply simp
  apply (simp only: in_measure prod.case)
  apply (erule ReadNameStep_More_shorter)
  done

declare ReadNameLoop.simps [simp del]

text \<open>
  The first part of \<^verbatim>\<open>ReadPropName\<close>, up to the trimmed name:
  \<^verbatim>\<open>DiscardEmptySpace();
  (loop)
  retString = TrimString(retString);\<close>
\<close>

definition ReadRawPropName :: "Reader \<Rightarrow> error + string \<times> Reader" where
  "ReadRawPropName r =
     (case DiscardEmptySpace r of
        Inl e \<Rightarrow> Inl e
      | Inr (b, r1) \<Rightarrow>
         (case cur_stream r1 of
            None \<Rightarrow> Inl InvalidStream
          | Some st \<Rightarrow>
             (case ReadNameLoop st [] of
                NameNoValue st' \<Rightarrow>
                  ReportError ''Property name wasn't followed by a value'' (set_stream st' r1)
              | NameFailed st' \<Rightarrow>
                  ReportError ''Stream failed for some reason'' (set_stream st' r1)
              | NameDone st' retString \<Rightarrow>
                  (case TrimString retString of
                     Inl e \<Rightarrow> Inl e
                   | Inr name \<Rightarrow> Inr (name, set_stream st' r1))
              | NameEof st' retString \<Rightarrow>
                  (case EndIncludeFile (set_stream st' r1) of
                     Inl e \<Rightarrow> Inl e
                   | Inr (b', r2) \<Rightarrow>
                       (case TrimString retString of
                          Inl e \<Rightarrow> Inl e
                        | Inr name \<Rightarrow> Inr (name, r2))))))"

text \<open>
  The rest of \<^verbatim>\<open>ReadPropName\<close>:
  \<^verbatim>\<open>if (retString == "IncludeFile") {
    if (m_SkipIncludes) {
      std::string val = ReadPropValue();
      DiscardEmptySpace();
      retString = ReadPropName();
    } else {
      StartIncludeFile();
      retString = ReadPropName();
    }
  }
  return retString;\<close>
  A file that includes itself keeps \<^verbatim>\<open>ReadPropName\<close> calling itself for ever, so the
  model counts the calls down: \<open>None\<close> is a recursion deeper than \<open>fuel\<close>.
\<close>

fun ReadPropName ::
  "nat \<Rightarrow> (string \<Rightarrow> string option) \<Rightarrow> Reader \<Rightarrow> (error + string \<times> Reader) option" where
  "ReadPropName 0 files r = None"
| "ReadPropName (Suc fuel) files r =
     (case ReadRawPropName r of
        Inl e \<Rightarrow> Some (Inl e)
      | Inr (name, r1) \<Rightarrow>
          if name = ''IncludeFile'' then
            (if m_SkipIncludes r1 then
               (case ReadPropValue r1 of
                  Inl e \<Rightarrow> Some (Inl e)
                | Inr (val, r2) \<Rightarrow>
                    (case DiscardEmptySpace r2 of
                       Inl e \<Rightarrow> Some (Inl e)
                     | Inr (b, r3) \<Rightarrow> ReadPropName fuel files r3))
             else
               (case StartIncludeFile files r1 of
                  Inl e \<Rightarrow> Some (Inl e)
                | Inr (b, r2) \<Rightarrow> ReadPropName fuel files r2))
          else Some (Inr (name, r1)))"

text \<open>
  A stream stands at real content when \<^verbatim>\<open>DiscardEmptySpace\<close> has nothing to discard
  from it: it is good and its next character is none of space, tab, newline, carriage
  return or the byte \<open>0xFF\<close>, and a slash there does not open a comment.
\<close>

definition at_content :: "stream \<Rightarrow> bool" where
  "at_content st \<longleftrightarrow>
     good st \<and>
     (case chars st of
        [] \<Rightarrow> False
      | c # cs \<Rightarrow>
          c \<noteq> CHR 0xFF \<and> c \<noteq> CHR '' '' \<and> c \<noteq> CHR 0x09 \<and> c \<noteq> CHR 0x0A \<and> c \<noteq> CHR 0x0D \<and>
          (c = CHR ''/'' \<longrightarrow> (case cs of [] \<Rightarrow> False | d # ds \<Rightarrow> d \<noteq> CHR ''/'' \<and> d \<noteq> CHR ''*'')))"

text \<open>
  The state a Reader is in once the end of the last stream was reached with nothing
  left on the stack: \<^verbatim>\<open>m_EndOfStreams\<close> is set, the stack is empty and the current
  stream has \<^verbatim>\<open>eofbit\<close> set.
\<close>

definition finished :: "Reader \<Rightarrow> bool" where
  "finished r \<longleftrightarrow>
     m_EndOfStreams r \<and> m_StreamStack r = [] \<and>
     (case cur_stream r of None \<Rightarrow> False | Some st \<Rightarrow> eofbit st)"

subsection \<open>The skipped content, item by item\<close>

text \<open>
  The insignificant content that the spec lists for the skip: a space, a tab, a newline,
  a carriage return, a \<^verbatim>\<open>//\<close> comment up to the end of its line, a \<^verbatim>\<open>/* ... */\<close> comment;
  and the three characters \<^verbatim>\<open>/*/\<close>, which the block comment loop takes for a whole
  comment, since the first character it extracts is the star of the opening.
\<close>

datatype blank =
    Space
  | Tab
  | Newline
  | Return
  | LineRemark string
  | BlockRemark string
  | StarRemark

text \<open>The characters of an item in the file.\<close>

fun render :: "blank \<Rightarrow> string" where
  "render Space = '' ''"
| "render Tab = [CHR 0x09]"
| "render Newline = [CHR 0x0A]"
| "render Return = [CHR 0x0D]"
| "render (LineRemark body) = ''//'' @ body"
| "render (BlockRemark body) = ''/*'' @ body @ ''*/''"
| "render StarRemark = ''/*/''"

text \<open>Whether a text holds a star directly followed by a slash.\<close>

fun has_close :: "string \<Rightarrow> bool" where
  "has_close (x # y # zs) = ((x = CHR ''*'' \<and> y = CHR ''/'') \<or> has_close (y # zs))"
| "has_close _ = False"

text \<open>
  A list of items is the skipped part in front of \<open>rest\<close> when a line comment holds no
  line break and is followed by one, and the \<^verbatim>\<open>*/\<close> that ends a block comment is the
  first star-slash after the slash that opens it.
\<close>

fun wf_blanks :: "blank list \<Rightarrow> string \<Rightarrow> bool" where
  "wf_blanks [] rest = True"
| "wf_blanks (LineRemark body # ts) rest =
     (CHR 0x0A \<notin> set body \<and> CHR 0x0D \<notin> set body \<and>
      (case concat (map render ts) @ rest of
         [] \<Rightarrow> False
       | c # cs \<Rightarrow> c = CHR 0x0A \<or> c = CHR 0x0D) \<and>
      wf_blanks ts rest)"
| "wf_blanks (BlockRemark body # ts) rest =
     (\<not> has_close (CHR ''*'' # body @ ''*'') \<and> wf_blanks ts rest)"
| "wf_blanks (t # ts) rest = wf_blanks ts rest"

text \<open>
  What a stream can end in when no real content is left: nothing at all, a \<^verbatim>\<open>//\<close>
  comment that no line break ends, or a \<^verbatim>\<open>/*\<close> comment that is never closed.
\<close>

definition at_end :: "string \<Rightarrow> bool" where
  "at_end tail \<longleftrightarrow>
     (case tail of
        [] \<Rightarrow> True
      | c # cs \<Rightarrow>
          c = CHR ''/'' \<and>
          (case cs of
             [] \<Rightarrow> False
           | d # ds \<Rightarrow>
               (d = CHR ''/'' \<and> CHR 0x0A \<notin> set ds \<and> CHR 0x0D \<notin> set ds) \<or>
               (d = CHR ''*'' \<and> \<not> has_close cs)))"

text \<open>
  What the skip keeps account of, said of the items: whether a line was eaten (a newline
  or carriage return outside comments), the lines to add to the line counter (one per
  newline outside comments and per newline inside a block comment; none for a carriage
  return, as the comment in the code has it), and the indent, the tabs after the last
  line break.
\<close>

definition ate_line :: "blank list \<Rightarrow> bool" where
  "ate_line ts \<longleftrightarrow> Newline \<in> set ts \<or> Return \<in> set ts"

fun lines_of :: "blank \<Rightarrow> int" where
  "lines_of Newline = 1"
| "lines_of (BlockRemark body) = int (count_list body (CHR 0x0A))"
| "lines_of t = 0"

definition lines_in :: "blank list \<Rightarrow> int" where
  "lines_in ts = sum_list (map lines_of ts)"

definition last_indent :: "blank list \<Rightarrow> int" where
  "last_indent ts =
     int (count_list (takeWhile (\<lambda>t. t \<noteq> Newline \<and> t \<noteq> Return) (rev ts)) Tab)"

text \<open>The local \<^verbatim>\<open>indent\<close> after one item, and after a list of items.\<close>

fun indent_step :: "blank \<Rightarrow> int \<Rightarrow> int" where
  "indent_step Tab indent = indent + 1"
| "indent_step Newline indent = 0"
| "indent_step Return indent = 0"
| "indent_step t indent = indent"

definition indent_after :: "blank list \<Rightarrow> int \<Rightarrow> int" where
  "indent_after ts indent =
     (if ate_line ts then last_indent ts else indent + int (count_list ts Tab))"

text \<open>
  \<^verbatim>\<open>int pos = s.find_last_of(c)\<close>, again with \<^verbatim>\<open>std::string::npos\<close> as \<open>-1\<close>.
\<close>

definition find_last_of :: "char \<Rightarrow> string \<Rightarrow> int" where
  "find_last_of c s =
     (if c \<in> set s
      then int (length s) - 1 - int (length (takeWhile (\<lambda>x. x \<noteq> c) (rev s)))
      else - 1)"

text \<open>
  A Reader as \<^verbatim>\<open>Clear\<close> and a successful \<^verbatim>\<open>Create\<close> leave it, on a file with the given
  contents. \<^verbatim>\<open>Create\<close> takes \<^verbatim>\<open>m_FileName\<close> after the last slash:
  \<^verbatim>\<open>int lastSlashPos = m_FilePath.find_last_of('/');
  if (lastSlashPos == std::string::npos) { lastSlashPos = m_FilePath.find_last_of('\\'); }
  m_FileName = m_FilePath.substr(lastSlashPos + 1);\<close>
\<close>

definition opened :: "string \<Rightarrow> string \<Rightarrow> Reader" where
  "opened path contents =
     \<lparr>streams = [Some \<lparr>chars = contents, eofbit = False, failbit = False\<rparr>],
      m_pStream = 0, m_FilePath = path, m_CurrentLine = 1, m_StreamStack = [],
      m_PreviousIndent = 0, m_IndentDifference = 0, m_ObjectEndings = 0,
      m_EndOfStreams = False,
      m_FileName =
        (let lastSlashPos = find_last_of (CHR ''/'') path;
             lastSlashPos =
               (if lastSlashPos = - 1 then find_last_of (CHR 0x5C) path else lastSlashPos)
         in drop (nat (lastSlashPos + 1)) path),
      m_SkipIncludes = False\<rparr>"


section \<open>Properties of Matrix\<close>

text \<open>
  C9. Division-assignment is guarded against a zero divisor: with divisor \<open>0\<close> (as a
  float, or as the rotation of the right-hand Matrix) the left-hand Matrix is returned
  with every field as it was, and the division with the reset of the elements-updated
  flag happens exactly when the divisor is not zero.
\<close>

theorem Matrix_div_assign_zero_guard:
  "Matrix_div_assign_float m 0 = m \<and>
   (m_Rotation rhs = 0 \<longrightarrow> Matrix_div_assign_Matrix m rhs = m) \<and>
   (d \<noteq> 0 \<longrightarrow> Matrix_div_assign_float m d =
        m\<lparr>m_Rotation := m_Rotation m / d, m_ElementsUpdated := False\<rparr>) \<and>
   (m_Rotation rhs \<noteq> 0 \<longrightarrow> Matrix_div_assign_Matrix m rhs =
        m\<lparr>m_Rotation := m_Rotation m / m_Rotation rhs, m_ElementsUpdated := False\<rparr>)"
  by (simp add: Matrix_div_assign_float_def Matrix_div_assign_Matrix_def)

theorem Matrix_div_assign_zero_guard_witness:
  "Matrix_div_assign_float
     \<lparr>m_Rotation = 6, m_FlippedX = True, m_FlippedY = False, m_Elements = [1, 0, 0, 1],
      m_ElementsUpdated = True\<rparr> 0
   = \<lparr>m_Rotation = 6, m_FlippedX = True, m_FlippedY = False, m_Elements = [1, 0, 0, 1],
      m_ElementsUpdated = True\<rparr> \<and>
   Matrix_div_assign_Matrix
     \<lparr>m_Rotation = 6, m_FlippedX = True, m_FlippedY = False, m_Elements = [1, 0, 0, 1],
      m_ElementsUpdated = True\<rparr>
     \<lparr>m_Rotation = 0, m_FlippedX = False, m_FlippedY = False, m_Elements = [1, 0, 0, 1],
      m_ElementsUpdated = True\<rparr>
   = \<lparr>m_Rotation = 6, m_FlippedX = True, m_FlippedY = False, m_Elements = [1, 0, 0, 1],
      m_ElementsUpdated = True\<rparr> \<and>
   Matrix_div_assign_float
     \<lparr>m_Rotation = 6, m_FlippedX = True, m_FlippedY = False, m_Elements = [1, 0, 0, 1],
      m_ElementsUpdated = True\<rparr> 2
   = \<lparr>m_Rotation = 3, m_FlippedX = True, m_FlippedY = False, m_Elements = [1, 0, 0, 1],
      m_ElementsUpdated = False\<rparr> \<and>
   Matrix_div_assign_Matrix
     \<lparr>m_Rotation = 6, m_FlippedX = True, m_FlippedY = False, m_Elements = [1, 0, 0, 1],
      m_ElementsUpdated = True\<rparr>
     \<lparr>m_Rotation = 2, m_FlippedX = False, m_FlippedY = False, m_Elements = [1, 0, 0, 1],
      m_ElementsUpdated = True\<rparr>
   = \<lparr>m_Rotation = 3, m_FlippedX = True, m_FlippedY = False, m_Elements = [1, 0, 0, 1],
      m_ElementsUpdated = False\<rparr>"
  using Matrix_div_assign_zero_guard
    [of "\<lparr>m_Rotation = 6, m_FlippedX = True, m_FlippedY = False, m_Elements = [1, 0, 0, 1],
          m_ElementsUpdated = True\<rparr>"
        "\<lparr>m_Rotation = 0, m_FlippedX = False, m_FlippedY = False, m_Elements = [1, 0, 0, 1],
          m_ElementsUpdated = True\<rparr>" 2]
    Matrix_div_assign_zero_guard
    [of "\<lparr>m_Rotation = 6, m_FlippedX = True, m_FlippedY = False, m_Elements = [1, 0, 0, 1],
          m_ElementsUpdated = True\<rparr>"
        "\<lparr>m_Rotation = 2, m_FlippedX = False, m_FlippedY = False, m_Elements = [1, 0, 0, 1],
          m_ElementsUpdated = True\<rparr>" 2]
  by simp


section \<open>Properties of DataModule\<close>

lemma distinct_remdups_adj_sorted:
  "sorted xs \<Longrightarrow> distinct (remdups_adj (xs :: ('a :: linorder) list))"
  by (induction xs rule: remdups_adj.induct) auto

lemma sort_snoc_member:
  "sorted xs \<Longrightarrow> distinct xs \<Longrightarrow> x \<in> set xs \<Longrightarrow>
   remdups_adj (sort (xs @ [x])) = (xs :: ('a :: linorder) list)"
proof -
  assume s: "sorted xs" and d: "distinct xs" and m: "x \<in> set xs"
  have "sorted (remdups_adj (sort (xs @ [x])))"
    by (simp add: sorted_remdups_adj)
  moreover have "distinct (remdups_adj (sort (xs @ [x])))"
    by (simp add: distinct_remdups_adj_sorted)
  moreover have "set (remdups_adj (sort (xs @ [x]))) = set xs"
    using m by auto
  ultimately show ?thesis
    using s d by (metis sorted_distinct_set_unique)
qed

text \<open>
  C8. After \<open>RegisterGroup tag\<close> the register contains \<open>tag\<close>, is sorted and has no
  duplicates, from every module state; the call is idempotent; and on a register that is
  sorted and free of duplicates (which every register produced by \<open>RegisterGroup\<close> is)
  registering a tag that is already present changes nothing.
\<close>

theorem RegisterGroup_sorted_unique:
  "newGroup \<in> set (m_GroupRegister (RegisterGroup newGroup dm)) \<and>
   sorted (m_GroupRegister (RegisterGroup newGroup dm)) \<and>
   distinct (m_GroupRegister (RegisterGroup newGroup dm)) \<and>
   set (m_GroupRegister (RegisterGroup newGroup dm)) = insert newGroup (set (m_GroupRegister dm)) \<and>
   RegisterGroup newGroup (RegisterGroup newGroup dm) = RegisterGroup newGroup dm \<and>
   (sorted (m_GroupRegister dm) \<and> distinct (m_GroupRegister dm) \<and>
    newGroup \<in> set (m_GroupRegister dm) \<longrightarrow> RegisterGroup newGroup dm = dm)"
proof -
  let ?r = "remdups_adj (sort (m_GroupRegister dm @ [newGroup]))"
  have srt: "sorted ?r" by (simp add: sorted_remdups_adj)
  have dst: "distinct ?r" by (simp add: distinct_remdups_adj_sorted)
  have mem: "newGroup \<in> set ?r" by simp
  have st: "set ?r = insert newGroup (set (m_GroupRegister dm))" by simp
  have again: "remdups_adj (sort (?r @ [newGroup])) = ?r"
    using sort_snoc_member [OF srt dst mem] .
  have idem: "RegisterGroup newGroup (RegisterGroup newGroup dm) = RegisterGroup newGroup dm"
    using again by (simp add: RegisterGroup_def)
  have same: "sorted (m_GroupRegister dm) \<and> distinct (m_GroupRegister dm) \<and>
      newGroup \<in> set (m_GroupRegister dm) \<longrightarrow> RegisterGroup newGroup dm = dm"
    by (simp add: RegisterGroup_def sort_snoc_member)
  show ?thesis
    using srt dst mem st idem same by (simp add: RegisterGroup_def)
qed

theorem RegisterGroup_sorted_unique_witness:
  "RegisterGroup ''Bombs''
     \<lparr>m_GroupRegister = [''Bombs'', ''Tools''], m_MaterialMappings = [],
      m_PresetList = [], m_TypeMap = []\<rparr>
   = \<lparr>m_GroupRegister = [''Bombs'', ''Tools''], m_MaterialMappings = [],
      m_PresetList = [], m_TypeMap = []\<rparr>"
proof -
  have "sorted [''Bombs'', ''Tools''] \<and> distinct [''Bombs'', ''Tools''] \<and>
        ''Bombs'' \<in> set [''Bombs'', ''Tools'']"
    by simp
  then show ?thesis
    using RegisterGroup_sorted_unique
      [of "''Bombs''" "\<lparr>m_GroupRegister = [''Bombs'', ''Tools''], m_MaterialMappings = [],
      m_PresetList = [], m_TypeMap = []\<rparr>"]
    by simp
qed

text \<open>
  C10. \<open>GetMaterialMapping\<close> reads the 256-entry array with no bounds check: on a module
  whose mapping array has its \<open>c_PaletteEntriesNumber\<close> entries the read is defined
  exactly for \<open>0 \<le> materialID < 256\<close>, and there it returns the byte stored in that slot.
\<close>

theorem GetMaterialMapping_in_bounds:
  assumes "length (m_MaterialMappings dm) = c_PaletteEntriesNumber"
  shows "(GetMaterialMapping dm materialID \<noteq> None \<longleftrightarrow> 0 \<le> materialID \<and> materialID < 256) \<and>
         (0 \<le> materialID \<and> materialID < 256 \<longrightarrow>
            GetMaterialMapping dm materialID = Some (uint (m_MaterialMappings dm ! nat materialID)) \<and>
            0 \<le> uint (m_MaterialMappings dm ! nat materialID) \<and>
            uint (m_MaterialMappings dm ! nat materialID) < 256)"
proof -
  have b: "uint (m_MaterialMappings dm ! nat materialID) < 256"
    using uint_bounded [of "m_MaterialMappings dm ! nat materialID"] by simp
  show ?thesis
    using assms b by (auto simp: GetMaterialMapping_def c_PaletteEntriesNumber_def)
qed

theorem GetMaterialMapping_in_bounds_witness:
  "GetMaterialMapping
     \<lparr>m_GroupRegister = [], m_MaterialMappings = (replicate 256 0)[5 := 7],
      m_PresetList = [], m_TypeMap = []\<rparr> 5 = Some 7 \<and>
   GetMaterialMapping
     \<lparr>m_GroupRegister = [], m_MaterialMappings = (replicate 256 0)[5 := 7],
      m_PresetList = [], m_TypeMap = []\<rparr> 256 = None \<and>
   GetMaterialMapping
     \<lparr>m_GroupRegister = [], m_MaterialMappings = (replicate 256 0)[5 := 7],
      m_PresetList = [], m_TypeMap = []\<rparr> (- 1) = None"
proof -
  let ?dm = "\<lparr>m_GroupRegister = [], m_MaterialMappings = (replicate 256 (0 :: 8 word))[5 := 7],
      m_PresetList = [], m_TypeMap = []\<rparr>"
  have len: "length (m_MaterialMappings ?dm) = c_PaletteEntriesNumber"
    by (simp add: c_PaletteEntriesNumber_def)
  have "GetMaterialMapping ?dm 5 = Some (uint (m_MaterialMappings ?dm ! nat 5))"
    using GetMaterialMapping_in_bounds [OF len, of 5] by simp
  moreover have "GetMaterialMapping ?dm 256 = None"
    using GetMaterialMapping_in_bounds [OF len, of 256] by simp
  moreover have "GetMaterialMapping ?dm (- 1) = None"
    using GetMaterialMapping_in_bounds [OF len, of "- 1"] by simp
  ultimately show ?thesis by simp
qed

lemma AddEntityPreset_again:
  "AddEntityPreset e False readFrom' (snd (AddEntityPreset e False readFrom dm))
   = (False, snd (AddEntityPreset e False readFrom dm))"
proof (cases "list_ex (other_class_entry e) (m_PresetList dm)")
  case True
  then show ?thesis by (simp add: AddEntityPreset_def)
next
  case False
  note no_other = False
  show ?thesis
  proof (cases "list_ex (exact_entry e) (m_PresetList dm)")
    case True
    with no_other show ?thesis by (simp add: AddEntityPreset_def)
  next
    case False
    let ?dm' = "dm\<lparr>m_PresetList :=
              m_PresetList dm @ [\<lparr>m_pEntityPreset = e, m_FileReadFrom = readFrom\<rparr>],
            m_TypeMap := AddToTypeMap e (m_TypeMap dm)\<rparr>"
    have first: "AddEntityPreset e False readFrom dm = (True, ?dm')"
      using no_other False by (simp add: AddEntityPreset_def)
    have a: "\<not> list_ex (other_class_entry e) (m_PresetList ?dm')"
      using no_other by (simp add: list_ex_iff other_class_entry_def)
    have b: "list_ex (exact_entry e) (m_PresetList ?dm')"
      by (simp add: list_ex_iff exact_entry_def)
    have "AddEntityPreset e False readFrom' ?dm' = (False, ?dm')"
      using a b by (simp add: AddEntityPreset_def)
    with first show ?thesis by simp
  qed
qed

text \<open>
  C3. Rejected duplicates. From every store and for every entity: when an entry with the
  same exact class name and preset name exists and \<open>overwriteSame\<close> is false,
  \<open>AddEntityPreset\<close> returns false and the store is as it was; when an entry with the same
  preset name exists under a different exact class, it returns false and the store is as
  it was, whatever \<open>overwriteSame\<close> is; and a second insertion of the same entity without
  overwriting returns false and leaves the store, and so the length of its preset list,
  as the first left it.
\<close>

theorem AddEntityPreset_rejects_duplicates:
  "(list_ex (exact_entry e) (m_PresetList dm) \<longrightarrow>
      AddEntityPreset e False readFrom dm = (False, dm)) \<and>
   (list_ex (other_class_entry e) (m_PresetList dm) \<longrightarrow>
      AddEntityPreset e overwriteSame readFrom dm = (False, dm)) \<and>
   AddEntityPreset e False readFrom' (snd (AddEntityPreset e False readFrom dm))
     = (False, snd (AddEntityPreset e False readFrom dm)) \<and>
   length (m_PresetList (snd (AddEntityPreset e False readFrom' (snd (AddEntityPreset e False readFrom dm)))))
     = length (m_PresetList (snd (AddEntityPreset e False readFrom dm)))"
  using AddEntityPreset_again [of e readFrom' readFrom dm]
  by (simp add: AddEntityPreset_def)

theorem AddEntityPreset_rejects_duplicates_witness:
  "AddEntityPreset
     \<lparr>m_sClass = ClassInfo ''AHuman'' (Some (ClassInfo ''Actor'' None)),
      m_PresetName = ''Soldier'', m_PresetDescription = ''second'',
      m_IsOriginalPreset = True, m_DefinedInModule = 0, m_Groups = [],
      m_LastGroupSearch = [], m_LastGroupResult = False, m_RandomWeight = 100\<rparr>
     False ''Same''
     \<lparr>m_GroupRegister = [], m_MaterialMappings = [],
      m_PresetList =
        [\<lparr>m_pEntityPreset =
            \<lparr>m_sClass = ClassInfo ''AHuman'' (Some (ClassInfo ''Actor'' None)),
             m_PresetName = ''Soldier'', m_PresetDescription = ''first'',
             m_IsOriginalPreset = True, m_DefinedInModule = 0, m_Groups = [],
             m_LastGroupSearch = [], m_LastGroupResult = False, m_RandomWeight = 100\<rparr>,
          m_FileReadFrom = ''Base.rte/Actors.ini''\<rparr>],
      m_TypeMap = []\<rparr>
   = (False,
     \<lparr>m_GroupRegister = [], m_MaterialMappings = [],
      m_PresetList =
        [\<lparr>m_pEntityPreset =
            \<lparr>m_sClass = ClassInfo ''AHuman'' (Some (ClassInfo ''Actor'' None)),
             m_PresetName = ''Soldier'', m_PresetDescription = ''first'',
             m_IsOriginalPreset = True, m_DefinedInModule = 0, m_Groups = [],
             m_LastGroupSearch = [], m_LastGroupResult = False, m_RandomWeight = 100\<rparr>,
          m_FileReadFrom = ''Base.rte/Actors.ini''\<rparr>],
      m_TypeMap = []\<rparr>) \<and>
   AddEntityPreset
     \<lparr>m_sClass = ClassInfo ''ACrab'' (Some (ClassInfo ''Actor'' None)),
      m_PresetName = ''Soldier'', m_PresetDescription = ''other'',
      m_IsOriginalPreset = True, m_DefinedInModule = 0, m_Groups = [],
      m_LastGroupSearch = [], m_LastGroupResult = False, m_RandomWeight = 100\<rparr>
     True ''Same''
     \<lparr>m_GroupRegister = [], m_MaterialMappings = [],
      m_PresetList =
        [\<lparr>m_pEntityPreset =
            \<lparr>m_sClass = ClassInfo ''AHuman'' (Some (ClassInfo ''Actor'' None)),
             m_PresetName = ''Soldier'', m_PresetDescription = ''first'',
             m_IsOriginalPreset = True, m_DefinedInModule = 0, m_Groups = [],
             m_LastGroupSearch = [], m_LastGroupResult = False, m_RandomWeight = 100\<rparr>,
          m_FileReadFrom = ''Base.rte/Actors.ini''\<rparr>],
      m_TypeMap = []\<rparr>
   = (False,
     \<lparr>m_GroupRegister = [], m_MaterialMappings = [],
      m_PresetList =
        [\<lparr>m_pEntityPreset =
            \<lparr>m_sClass = ClassInfo ''AHuman'' (Some (ClassInfo ''Actor'' None)),
             m_PresetName = ''Soldier'', m_PresetDescription = ''first'',
             m_IsOriginalPreset = True, m_DefinedInModule = 0, m_Groups = [],
             m_LastGroupSearch = [], m_LastGroupResult = False, m_RandomWeight = 100\<rparr>,
          m_FileReadFrom = ''Base.rte/Actors.ini''\<rparr>],
      m_TypeMap = []\<rparr>)"
proof -
  let ?old = "\<lparr>m_sClass = ClassInfo ''AHuman'' (Some (ClassInfo ''Actor'' None)),
             m_PresetName = ''Soldier'', m_PresetDescription = ''first'',
             m_IsOriginalPreset = True, m_DefinedInModule = 0, m_Groups = [],
             m_LastGroupSearch = [], m_LastGroupResult = False, m_RandomWeight = 100\<rparr>"
  let ?same = "\<lparr>m_sClass = ClassInfo ''AHuman'' (Some (ClassInfo ''Actor'' None)),
      m_PresetName = ''Soldier'', m_PresetDescription = ''second'',
      m_IsOriginalPreset = True, m_DefinedInModule = 0, m_Groups = [],
      m_LastGroupSearch = [], m_LastGroupResult = False, m_RandomWeight = 100\<rparr>"
  let ?other = "\<lparr>m_sClass = ClassInfo ''ACrab'' (Some (ClassInfo ''Actor'' None)),
      m_PresetName = ''Soldier'', m_PresetDescription = ''other'',
      m_IsOriginalPreset = True, m_DefinedInModule = 0, m_Groups = [],
      m_LastGroupSearch = [], m_LastGroupResult = False, m_RandomWeight = 100\<rparr>"
  let ?dm = "\<lparr>m_GroupRegister = [], m_MaterialMappings = [],
      m_PresetList = [\<lparr>m_pEntityPreset = ?old, m_FileReadFrom = ''Base.rte/Actors.ini''\<rparr>],
      m_TypeMap = []\<rparr>"
  have a: "list_ex (exact_entry ?same) (m_PresetList ?dm)"
    by (simp add: exact_entry_def GetClassName_def GetName_def)
  have b: "list_ex (other_class_entry ?other) (m_PresetList ?dm)"
    by (simp add: other_class_entry_def GetClassName_def GetName_def)
  from AddEntityPreset_rejects_duplicates [where e = ?same and dm = ?dm and readFrom = "''Same''"] a
  have one: "AddEntityPreset ?same False ''Same'' ?dm = (False, ?dm)" by blast
  from AddEntityPreset_rejects_duplicates
      [where e = ?other and dm = ?dm and overwriteSame = True and readFrom = "''Same''"] b
  have two: "AddEntityPreset ?other True ''Same'' ?dm = (False, ?dm)" by blast
  from one two show ?thesis by simp
qed


section \<open>Properties of the Reader\<close>

subsection \<open>Stopping at real content\<close>

lemma at_content_step:
  assumes "at_content st"
  shows "DiscardStep st indent ateLine line = Stop (Content st indent ateLine line)"
proof -
  from assms obtain c cs where g: "good st" and c: "chars st = c # cs"
    by (auto simp: at_content_def split: list.splits)
  from assms c show ?thesis
    unfolding DiscardStep_good [OF g c]
    by (auto simp: at_content_def split: list.splits)
qed

lemma at_content_loop:
  assumes "at_content st"
  shows "DiscardLoop st indent ateLine line = Content st indent ateLine line"
  by (simp add: DiscardLoop.simps [of st] at_content_step [OF assms])

lemma step_Content_good:
  assumes "DiscardStep st indent ateLine line = Stop (Content st' indent' ateLine' line')" "good st'"
  shows "at_content st'"
proof (cases "good st")
  case False
  with assms show ?thesis by (simp add: DiscardStep_not_good split: if_splits)
next
  case True
  show ?thesis
  proof (cases "chars st")
    case Nil
    with True assms show ?thesis by (simp add: DiscardStep_empty)
  next
    case (Cons c cs)
    from assms(1) have "st' = st \<and> c \<noteq> CHR 0xFF \<and> c \<noteq> CHR '' '' \<and> c \<noteq> CHR 0x09 \<and> c \<noteq> CHR 0x0A \<and> c \<noteq> CHR 0x0D
        \<and> (c = CHR ''/'' \<longrightarrow> cs \<noteq> [] \<and> hd cs \<noteq> CHR ''/'' \<and> hd cs \<noteq> CHR ''*'')"
      unfolding DiscardStep_good [OF True Cons] using assms(2)
      by (auto simp: good_def split: if_splits)
    with True Cons show ?thesis by (auto simp: at_content_def split: list.splits)
  qed
qed

lemma loop_Content_good:
  "DiscardLoop st indent ateLine line = Content st' indent' ateLine' line' \<Longrightarrow> good st' \<Longrightarrow> at_content st'"
proof (induction st indent ateLine line rule: DiscardLoop.induct)
  case (1 st indent ateLine line)
  show ?case
  proof (cases "DiscardStep st indent ateLine line")
    case (Continue st2 i2 a2 l2)
    with 1 show ?thesis by (simp add: DiscardLoop.simps [of st])
  next
    case (Stop r)
    with 1(2) have "r = Content st' indent' ateLine' line'" by (simp add: DiscardLoop.simps [of st])
    with Stop 1(3) show ?thesis using step_Content_good by blast
  qed
qed

lemma cur_stream_set_stream:
  "cur_stream r = Some st \<Longrightarrow> cur_stream (set_stream st' r) = Some st'"
  by (auto simp: cur_stream_def set_stream_def split: if_splits)

lemma set_stream_same:
  "cur_stream r = Some st \<Longrightarrow> set_stream st r = r"
  by (auto simp: cur_stream_def set_stream_def list_update_same_conv split: if_splits)

lemma set_stream_fields [simp]:
  "m_pStream (set_stream st r) = m_pStream r"
  "m_FilePath (set_stream st r) = m_FilePath r"
  "m_CurrentLine (set_stream st r) = m_CurrentLine r"
  "m_StreamStack (set_stream st r) = m_StreamStack r"
  "m_PreviousIndent (set_stream st r) = m_PreviousIndent r"
  "m_IndentDifference (set_stream st r) = m_IndentDifference r"
  "m_ObjectEndings (set_stream st r) = m_ObjectEndings r"
  "m_EndOfStreams (set_stream st r) = m_EndOfStreams r"
  "m_FileName (set_stream st r) = m_FileName r"
  "m_SkipIncludes (set_stream st r) = m_SkipIncludes r"
  "length (streams (set_stream st r)) = length (streams r)"
  by (simp_all add: set_stream_def)

lemma cur_stream_cong:
  "streams r' = streams r \<Longrightarrow> m_pStream r' = m_pStream r \<Longrightarrow> cur_stream r' = cur_stream r"
  by (simp add: cur_stream_def)

lemma DiscardEmptySpace_at_content:
  assumes "cur_stream r = Some st" "at_content st"
  shows "DiscardEmptySpace r = Inr (True, r)"
proof -
  have "set_stream st (r\<lparr>m_CurrentLine := m_CurrentLine r\<rparr>) = r"
    using set_stream_same [OF assms(1)] by simp
  then show ?thesis
    by (simp add: DiscardEmptySpace.simps [of r] assms(1) at_content_loop [OF assms(2)])
qed

lemma DiscardEmptySpace_post:
  shows "DiscardEmptySpace r = Inr (b, r') \<Longrightarrow> cur_stream r' = Some st \<Longrightarrow> good st \<Longrightarrow>
         \<not> m_EndOfStreams r' \<Longrightarrow> at_content st"
    and "EndIncludeFile r = Inr (b, r') \<Longrightarrow> cur_stream r' = Some st \<Longrightarrow> good st \<Longrightarrow>
         \<not> m_EndOfStreams r' \<Longrightarrow> at_content st"
proof (induction r and r arbitrary: b r' st and b r' st rule: DiscardEmptySpace_EndIncludeFile.induct)
  case (1 r)
  note des = "1.prems"(1) and cur' = "1.prems"(2) and gd = "1.prems"(3) and fl = "1.prems"(4)
  from des obtain st0 where c: "cur_stream r = Some st0"
    by (cases "cur_stream r") (simp_all add: DiscardEmptySpace.simps [of r])
  show ?case
  proof (cases "DiscardLoop st0 0 False (m_CurrentLine r)")
    case (Content st1 indent ateLine line)
    let ?r1 = "set_stream st1 (r\<lparr>m_CurrentLine := line\<rparr>)"
    have c1: "cur_stream ?r1 = Some st1"
      using c by (auto simp: cur_stream_def set_stream_def split: if_splits)
    from des c Content have "streams r' = streams ?r1 \<and> m_pStream r' = m_pStream ?r1"
      by (auto simp: DiscardEmptySpace.simps [of r] split: if_splits)
    then have "cur_stream r' = cur_stream ?r1" by (simp add: cur_stream_def)
    with c1 cur' have "st1 = st" by simp
    with Content gd show ?thesis using loop_Content_good by blast
  next
    case (EndOfStream st1 line)
    with des c have "EndIncludeFile (set_stream st1 (r\<lparr>m_CurrentLine := line\<rparr>)) = Inr (b, r')"
      by (simp add: DiscardEmptySpace.simps [of r])
    from "1.IH" [OF c EndOfStream this cur' gd fl] show ?thesis .
  next
    case (Junk st1 line)
    with des c show ?thesis
      by (simp add: DiscardEmptySpace.simps [of r] ReportError_def RTEAbort_def)
  qed
next
  case (2 r)
  note eif = "2.prems"(1) and cur' = "2.prems"(2) and gd = "2.prems"(3) and fl = "2.prems"(4)
  show ?case
  proof (cases "m_StreamStack r")
    case Nil
    with eif fl show ?thesis by (auto simp: EndIncludeFile.simps [of r])
  next
    case (Cons bk rest)
    with eif obtain st0 where c: "cur_stream r = Some st0"
      by (cases "cur_stream r") (simp_all add: EndIncludeFile.simps [of r])
    let ?r1 = "(delete_stream r)
                        \<lparr>m_pStream := si_pStream bk,
                         m_FilePath := si_FilePath bk,
                         m_CurrentLine := si_CurrentLine bk,
                         m_PreviousIndent := m_PreviousIndent r + si_PreviousIndent bk,
                         m_StreamStack := rest,
                         m_FileName := FileNameOf (si_FilePath bk)\<rparr>"
    from eif Cons c obtain b1 where "DiscardEmptySpace ?r1 = Inr (b1, r')"
      by (auto simp: EndIncludeFile.simps [of r] split: sum.splits)
    from "2.IH" [OF Cons c this cur' gd fl] show ?thesis .
  qed
qed

subsection \<open>Scope ends after a dedent\<close>

lemma NextProperty_at_content:
  assumes "cur_stream r = Some st" "at_content st" "\<not> m_EndOfStreams r"
  shows "NextProperty r =
     (if m_ObjectEndings r < - m_IndentDifference r
      then Inr (False, r\<lparr>m_ObjectEndings := m_ObjectEndings r + 1\<rparr>)
      else Inr (True, r\<lparr>m_ObjectEndings := 0\<rparr>))"
  using assms(3) by (simp add: NextProperty_def DiscardEmptySpace_at_content [OF assms(1,2)])

lemma cur_stream_ObjectEndings [simp]:
  "cur_stream (r\<lparr>m_ObjectEndings := k\<rparr>) = cur_stream r"
  by (simp add: cur_stream_def)

lemma NextProperty_n_pending:
  assumes "cur_stream r = Some st" "at_content st" "\<not> m_EndOfStreams r"
    "m_ObjectEndings r + int k \<le> - m_IndentDifference r"
  shows "NextProperty_n k r = Inr (replicate k False, r\<lparr>m_ObjectEndings := m_ObjectEndings r + int k\<rparr>)"
  using assms
proof (induction k arbitrary: r)
  case 0
  then show ?case by simp
next
  case (Suc k)
  let ?r1 = "r\<lparr>m_ObjectEndings := m_ObjectEndings r + 1\<rparr>"
  from Suc.prems have np: "NextProperty r = Inr (False, ?r1)"
    by (simp add: NextProperty_at_content [of r st])
  have "NextProperty_n k ?r1 = Inr (replicate k False, ?r1\<lparr>m_ObjectEndings := m_ObjectEndings ?r1 + int k\<rparr>)"
    using Suc.prems by (intro Suc.IH) simp_all
  with np show ?case by (simp add: add.assoc add.commute)
qed

lemma NextProperty_n_snoc:
  "NextProperty_n (Suc n) r =
     (case NextProperty_n n r of
        Inl e \<Rightarrow> Inl e
      | Inr (bs, r1) \<Rightarrow>
         (case NextProperty r1 of
            Inl e \<Rightarrow> Inl e
          | Inr (b, r2) \<Rightarrow> Inr (bs @ [b], r2)))"
proof (induction n arbitrary: r)
  case 0
  show ?case by (simp split: sum.splits)
next
  case (Suc n)
  show ?case
    apply (subst NextProperty_n.simps(2))
    apply (subst Suc.IH)
    apply (simp split: sum.splits prod.splits)
    done
qed

text \<open>
  C1. Multi-level dedent law. Let a call of \<open>DiscardEmptySpace\<close> stop at real content of
  a readable stream, before the end of all streams, having observed a dedent of \<open>N\<close>
  levels (\<open>m_IndentDifference = -N\<close>) with the close counter \<open>m_ObjectEndings\<close> at \<open>0\<close>.
  Then each of the next \<open>N\<close> calls of \<open>NextProperty\<close> returns false and raises the counter
  by one (after \<open>k \<le> N\<close> calls it is \<open>k\<close>), and the call after them returns true and
  puts the counter back to \<open>0\<close>, leaving the Reader as the observing call left it. The same
  \<open>N\<close> times false, then true, is what a caller sees who makes the observing call inside
  the first \<open>NextProperty\<close>.
\<close>

theorem multi_level_dedent:
  assumes "DiscardEmptySpace r0 = Inr (True, r)"
    and "cur_stream r = Some st" and "good st" and "\<not> m_EndOfStreams r"
    and "m_IndentDifference r = - int N" and "m_ObjectEndings r = 0"
  shows "(\<forall>k \<le> N. NextProperty_n k r = Inr (replicate k False, r\<lparr>m_ObjectEndings := int k\<rparr>)) \<and>
         NextProperty_n (Suc N) r = Inr (replicate N False @ [True], r) \<and>
         NextProperty_n (Suc N) r0 = Inr (replicate N False @ [True], r)"
proof -
  have ac: "at_content st"
    using DiscardEmptySpace_post(1) [OF assms(1,2,3,4)] .
  have pend: "NextProperty_n k r = Inr (replicate k False, r\<lparr>m_ObjectEndings := int k\<rparr>)"
    if "k \<le> N" for k
    using NextProperty_n_pending [OF assms(2) ac assms(4), of k] that assms(5,6) by simp
  let ?rN = "r\<lparr>m_ObjectEndings := int N\<rparr>"
  have "NextProperty ?rN = Inr (True, ?rN\<lparr>m_ObjectEndings := 0\<rparr>)"
    using NextProperty_at_content [of ?rN st] assms(2,4,5) ac by simp
  moreover have "?rN\<lparr>m_ObjectEndings := 0\<rparr> = r"
    using assms(6) by simp
  ultimately have last: "NextProperty ?rN = Inr (True, r)" by simp
  have full: "NextProperty_n (Suc N) r = Inr (replicate N False @ [True], r)"
    by (simp only: NextProperty_n_snoc [of N r] pend [OF le_refl] last sum.case prod.case)
  have same: "NextProperty r0 = NextProperty r"
    by (simp add: NextProperty_def assms(1) DiscardEmptySpace_at_content [OF assms(2) ac])
  have "NextProperty_n (Suc N) r0 = NextProperty_n (Suc N) r"
    by (simp only: NextProperty_n.simps(2) same)
  with pend full show ?thesis by simp
qed

theorem multi_level_dedent_witness:
  "NextProperty_n 3
     ((opened ''Base.rte/Index.ini'' (CHR 0x0A # ''Next = 1''))\<lparr>m_PreviousIndent := 2\<rparr>)
   = Inr ([False, False, True],
          (opened ''Base.rte/Index.ini'' ''Next = 1'')
            \<lparr>m_CurrentLine := 2, m_IndentDifference := - 2\<rparr>)"
proof -
  let ?ini = "(opened ''Base.rte/Index.ini'' (CHR 0x0A # ''Next = 1''))\<lparr>m_PreviousIndent := 2\<rparr>"
  let ?obs = "(opened ''Base.rte/Index.ini'' ''Next = 1'')\<lparr>m_CurrentLine := 2, m_IndentDifference := - 2\<rparr>"
  let ?st = "\<lparr>chars = ''Next = 1'', eofbit = False, failbit = False\<rparr>"
  have a: "DiscardEmptySpace ?ini = Inr (True, ?obs)" by code_simp
  have b: "cur_stream ?obs = Some ?st" by (simp add: opened_def cur_stream_def)
  have c: "good ?st" by (simp add: good_def)
  have d: "\<not> m_EndOfStreams ?obs" by (simp add: opened_def)
  have e: "m_IndentDifference ?obs = - int 2" by (simp add: opened_def)
  have f: "m_ObjectEndings ?obs = 0" by (simp add: opened_def)
  from multi_level_dedent [OF a b c d e f]
  have h: "NextProperty_n (Suc 2) ?ini = Inr (replicate 2 False @ [True], ?obs)" by blast
  have n: "(3::nat) = Suc 2" by simp
  have l: "replicate 2 False @ [True] = [False, False, True]" by (simp add: numeral_2_eq_2)
  from h show ?thesis unfolding n l .
qed

subsection \<open>The end of all input\<close>

lemma EndOfStreams_kept:
  shows "DiscardEmptySpace r = Inr (b, r') \<Longrightarrow> m_EndOfStreams r \<Longrightarrow> m_EndOfStreams r'"
    and "EndIncludeFile r = Inr (b, r') \<Longrightarrow> m_EndOfStreams r \<Longrightarrow> m_EndOfStreams r'"
proof (induction r and r arbitrary: b r' and b r' rule: DiscardEmptySpace_EndIncludeFile.induct)
  case (1 r)
  note des = "1.prems"(1) and fl = "1.prems"(2)
  from des obtain st0 where c: "cur_stream r = Some st0"
    by (cases "cur_stream r") (simp_all add: DiscardEmptySpace.simps [of r])
  show ?case
  proof (cases "DiscardLoop st0 0 False (m_CurrentLine r)")
    case (Content st1 indent ateLine line)
    with des c fl show ?thesis
      by (auto simp: DiscardEmptySpace.simps [of r] split: if_splits)
  next
    case (EndOfStream st1 line)
    with des c have "EndIncludeFile (set_stream st1 (r\<lparr>m_CurrentLine := line\<rparr>)) = Inr (b, r')"
      by (simp add: DiscardEmptySpace.simps [of r])
    from "1.IH" [OF c EndOfStream this] fl show ?thesis by simp
  next
    case (Junk st1 line)
    with des c show ?thesis
      by (simp add: DiscardEmptySpace.simps [of r] ReportError_def RTEAbort_def)
  qed
next
  case (2 r)
  note eif = "2.prems"(1) and fl = "2.prems"(2)
  show ?case
  proof (cases "m_StreamStack r")
    case Nil
    with eif show ?thesis by (auto simp: EndIncludeFile.simps [of r])
  next
    case (Cons bk rest)
    with eif obtain st0 where c: "cur_stream r = Some st0"
      by (cases "cur_stream r") (simp_all add: EndIncludeFile.simps [of r])
    let ?r1 = "(delete_stream r)
                        \<lparr>m_pStream := si_pStream bk,
                         m_FilePath := si_FilePath bk,
                         m_CurrentLine := si_CurrentLine bk,
                         m_PreviousIndent := m_PreviousIndent r + si_PreviousIndent bk,
                         m_StreamStack := rest,
                         m_FileName := FileNameOf (si_FilePath bk)\<rparr>"
    from eif Cons c obtain b1 where "DiscardEmptySpace ?r1 = Inr (b1, r')"
      by (auto simp: EndIncludeFile.simps [of r] split: sum.splits)
    from "2.IH" [OF Cons c this] fl show ?thesis by (simp add: delete_stream_def)
  qed
qed

lemma DiscardLoop_at_eof:
  assumes "eofbit (snd (peek st))"
  shows "DiscardLoop st indent ateLine line = EndOfStream (snd (peek st)) line"
  using assms by (simp add: DiscardLoop.simps [of st] DiscardStep_def case_prod_beta)

lemma EndIncludeFile_empty_stack:
  assumes "m_StreamStack r = []"
  shows "EndIncludeFile r = Inr (False, r\<lparr>m_EndOfStreams := True\<rparr>)"
  using assms by (simp add: EndIncludeFile.simps [of r])

lemma DiscardEmptySpace_at_eof:
  assumes "m_StreamStack r = []" "cur_stream r = Some st" "eofbit (snd (peek st))"
  shows "DiscardEmptySpace r = Inr (False, (set_stream (snd (peek st)) r)\<lparr>m_EndOfStreams := True\<rparr>)"
proof -
  have "r\<lparr>m_CurrentLine := m_CurrentLine r\<rparr> = r" by simp
  then show ?thesis
    using assms
    by (simp add: DiscardEmptySpace.simps [of r] DiscardLoop_at_eof EndIncludeFile_empty_stack)
qed

lemma peek_eofbit: "eofbit st \<Longrightarrow> peek st = (None, st\<lparr>failbit := True\<rparr>)"
  by (simp add: peek_def good_def)

lemma get_eofbit: "eofbit st \<Longrightarrow> get st = (None, st\<lparr>failbit := True\<rparr>)"
  by (simp add: get_def good_def)

lemma finished_set_stream:
  assumes "cur_stream r = Some st" "eofbit st'" "m_StreamStack r = []"
  shows "finished ((set_stream st' r)\<lparr>m_EndOfStreams := True\<rparr>)"
  using assms
  by (auto simp: finished_def cur_stream_def set_stream_def split: if_splits)

lemma finished_DiscardEmptySpace:
  assumes "finished r"
  shows "\<exists>r'. DiscardEmptySpace r = Inr (False, r') \<and> finished r'"
proof -
  from assms obtain st where c: "cur_stream r = Some st" and e: "eofbit st"
    and s: "m_StreamStack r = []"
    by (auto simp: finished_def split: option.splits)
  have p: "eofbit (snd (peek st))" using e by (simp add: peek_eofbit)
  show ?thesis
    using DiscardEmptySpace_at_eof [OF s c p] finished_set_stream [OF c p s] by blast
qed

lemma finished_NextProperty:
  assumes "finished r"
  shows "\<exists>r'. NextProperty r = Inr (False, r') \<and> finished r'"
  using finished_DiscardEmptySpace [OF assms] by (auto simp: NextProperty_def)

lemma finished_NextProperty_n:
  assumes "finished r"
  shows "\<exists>r'. NextProperty_n n r = Inr (replicate n False, r') \<and> finished r'"
  using assms
proof (induction n arbitrary: r)
  case 0
  then show ?case by simp
next
  case (Suc n)
  from finished_NextProperty [OF Suc.prems] obtain r1
    where a: "NextProperty r = Inr (False, r1)" and f: "finished r1" by blast
  from Suc.IH [OF f] obtain r2
    where b: "NextProperty_n n r1 = Inr (replicate n False, r2)" and g: "finished r2" by blast
  from a b g show ?case by simp
qed

lemma finished_ReadPropValue:
  assumes "finished r"
  shows "\<exists>r'. ReadPropValue r = Inr ([], r') \<and> finished r'"
proof -
  from finished_DiscardEmptySpace [OF assms] obtain r1
    where a: "DiscardEmptySpace r = Inr (False, r1)" and f: "finished r1" by blast
  from f obtain st where c: "cur_stream r1 = Some st" and e: "eofbit st"
    and s: "m_StreamStack r1 = []" and fl: "m_EndOfStreams r1"
    by (auto simp: finished_def split: option.splits)
  let ?st1 = "st\<lparr>failbit := True\<rparr>"
  have "ReadLineStep ?st1 (CHR 0xFF) [] = LineStop (LineDone ?st1 [])"
    using e by (simp add: ReadLineStep_def get_eofbit)
  then have l: "ReadLineLoop ?st1 (CHR 0xFF) [] = LineDone ?st1 []"
    by (simp add: ReadLineLoop.simps [of ?st1])
  have rl: "ReadLine r = Inr ([], set_stream ?st1 r1)"
    using a c e l by (simp add: ReadLine_def peek_eofbit as_char_def)
  have "finished ((set_stream ?st1 r1)\<lparr>m_EndOfStreams := True\<rparr>)"
    using finished_set_stream [OF c _ s, of ?st1] e by simp
  moreover have "(set_stream ?st1 r1)\<lparr>m_EndOfStreams := True\<rparr> = set_stream ?st1 r1"
    using fl by (simp add: set_stream_def)
  ultimately have "finished (set_stream ?st1 r1)" by simp
  with rl show ?thesis
    by (simp add: ReadPropValue_def find_first_of_def TrimString_def)
qed

lemma finished_ReadPropName:
  assumes "finished r"
  shows "\<exists>r'. ReadPropName (Suc fuel) files r = Some (Inr ([], r')) \<and> finished r'"
proof -
  from finished_DiscardEmptySpace [OF assms] obtain r1
    where a: "DiscardEmptySpace r = Inr (False, r1)" and f: "finished r1" by blast
  from f obtain st where c: "cur_stream r1 = Some st" and e: "eofbit st"
    and s: "m_StreamStack r1 = []" and fl: "m_EndOfStreams r1"
    by (auto simp: finished_def split: option.splits)
  let ?st2 = "st\<lparr>failbit := True\<rparr>"
  have "ReadNameStep st [] = NameStop (NameEof ?st2 [])"
    using e by (simp add: ReadNameStep_def peek_eofbit get_eofbit as_char_def)
  then have l: "ReadNameLoop st [] = NameEof ?st2 []"
    by (simp add: ReadNameLoop.simps [of st])
  let ?r2 = "(set_stream ?st2 r1)\<lparr>m_EndOfStreams := True\<rparr>"
  have eif: "EndIncludeFile (set_stream ?st2 r1) = Inr (False, ?r2)"
    using s by (simp add: EndIncludeFile_empty_stack)
  have raw: "ReadRawPropName r = Inr ([], ?r2)"
    using a c l eif by (simp add: ReadRawPropName_def TrimString_def)
  have "finished ?r2"
    using finished_set_stream [OF c _ s, of ?st2] e by simp
  with raw show ?thesis by simp
qed

lemma NextProperty_after_end:
  assumes "m_EndOfStreams r" "NextProperty r = Inr (b, r')"
  shows "\<not> b \<and> m_EndOfStreams r'"
proof -
  from assms(2) obtain b1 r1 where d: "DiscardEmptySpace r = Inr (b1, r1)"
    by (auto simp: NextProperty_def split: sum.splits)
  from EndOfStreams_kept(1) [OF d assms(1)] have "m_EndOfStreams r1" .
  with assms(2) d show ?thesis by (auto simp: NextProperty_def)
qed

lemma ReadLine_EndOfStreams_kept:
  assumes "ReadLine r = Inr (v, r')" "m_EndOfStreams r"
  shows "m_EndOfStreams r'"
proof -
  from assms(1) obtain b r1 where d: "DiscardEmptySpace r = Inr (b, r1)"
    by (auto simp: ReadLine_def split: sum.splits)
  from EndOfStreams_kept(1) [OF d assms(2)] have "m_EndOfStreams r1" .
  with assms(1) d show ?thesis
    by (auto simp: ReadLine_def ReportError_def RTEAbort_def set_stream_def
        split: option.splits line_result.splits)
qed

lemma ReadPropValue_EndOfStreams_kept:
  assumes "ReadPropValue r = Inr (v, r')" "m_EndOfStreams r"
  shows "m_EndOfStreams r'"
proof -
  from assms(1) obtain l where "ReadLine r = Inr (l, r')"
    by (auto simp: ReadPropValue_def Let_def split: sum.splits)
  from ReadLine_EndOfStreams_kept [OF this assms(2)] show ?thesis .
qed

lemma StartIncludeFile_EndOfStreams_kept:
  assumes "StartIncludeFile files r = Inr (b, r')" "m_EndOfStreams r"
  shows "m_EndOfStreams r'"
proof -
  let ?r0 = "r\<lparr>m_StreamStack :=
                  \<lparr>si_pStream = m_pStream r, si_FilePath = m_FilePath r,
                   si_CurrentLine = m_CurrentLine r, si_PreviousIndent = m_PreviousIndent r\<rparr>
                  # m_StreamStack r\<rparr>"
  from assms(1) obtain path r1 where v: "ReadPropValue ?r0 = Inr (path, r1)"
    by (auto simp: StartIncludeFile_def split: sum.splits)
  from ReadPropValue_EndOfStreams_kept [OF v] assms(2) have f1: "m_EndOfStreams r1" by simp
  let ?r2 = "r1\<lparr>m_FilePath := path,
                      streams := streams r1 @ [Some (ifstream files path)],
                      m_pStream := length (streams r1)\<rparr>"
  let ?r3 = "?r2\<lparr>m_CurrentLine := 1, m_PreviousIndent := 0, m_FileName := FileNameOf path\<rparr>"
  from assms(1) v obtain b3 where d: "DiscardEmptySpace ?r3 = Inr (b3, r')"
    by (auto simp: StartIncludeFile_def Let_def ReportError_def RTEAbort_def
        split: sum.splits if_splits list.splits)
  from EndOfStreams_kept(1) [OF d] f1 show ?thesis by simp
qed

lemma ReadRawPropName_EndOfStreams_kept:
  assumes "ReadRawPropName r = Inr (v, r')" "m_EndOfStreams r"
  shows "m_EndOfStreams r'"
proof (cases "DiscardEmptySpace r")
  case (Inl e)
  with assms(1) show ?thesis by (simp add: ReadRawPropName_def)
next
  case (Inr p)
  obtain b r1 where p: "p = (b, r1)" by (cases p)
  with Inr have d: "DiscardEmptySpace r = Inr (b, r1)" by simp
  from EndOfStreams_kept(1) [OF d assms(2)] have f1: "m_EndOfStreams r1" .
  show ?thesis
  proof (cases "cur_stream r1")
    case None
    with assms(1) d show ?thesis by (simp add: ReadRawPropName_def)
  next
    case (Some st)
    note c = Some
    show ?thesis
    proof (cases "ReadNameLoop st []")
      case (NameDone st' ret)
      with assms(1) d c have "r' = set_stream st' r1"
        by (cases "TrimString ret") (simp_all add: ReadRawPropName_def)
      with f1 show ?thesis by (simp add: set_stream_def)
    next
      case (NameNoValue st')
      with assms(1) d c show ?thesis
        by (simp add: ReadRawPropName_def ReportError_def RTEAbort_def)
    next
      case (NameEof st' ret)
      show ?thesis
      proof (cases "EndIncludeFile (set_stream st' r1)")
        case (Inl e)
        with assms(1) d c NameEof show ?thesis by (simp add: ReadRawPropName_def)
      next
        case (Inr q)
        obtain b2 r2 where q: "q = (b2, r2)" by (cases q)
        with Inr have eif: "EndIncludeFile (set_stream st' r1) = Inr (b2, r2)" by simp
        from EndOfStreams_kept(2) [OF eif] f1 have f2: "m_EndOfStreams r2"
          by (simp add: set_stream_def)
        from assms(1) d c NameEof eif have "r' = r2"
          by (cases "TrimString ret") (simp_all add: ReadRawPropName_def)
        with f2 show ?thesis by simp
      qed
    next
      case (NameFailed st')
      with assms(1) d c show ?thesis
        by (simp add: ReadRawPropName_def ReportError_def RTEAbort_def)
    qed
  qed
qed

lemma ReadPropName_EndOfStreams_kept:
  "ReadPropName fuel files r = Some (Inr (v, r')) \<Longrightarrow> m_EndOfStreams r \<Longrightarrow> m_EndOfStreams r'"
proof (induction fuel arbitrary: r)
  case 0
  then show ?case by simp
next
  case (Suc fuel)
  from Suc.prems(1) obtain name r1 where raw: "ReadRawPropName r = Inr (name, r1)"
    by (auto split: sum.splits)
  from ReadRawPropName_EndOfStreams_kept [OF raw Suc.prems(2)] have f1: "m_EndOfStreams r1" .
  show ?case
  proof (cases "name = ''IncludeFile''")
    case False
    with Suc.prems(1) raw f1 show ?thesis by simp
  next
    case True
    show ?thesis
    proof (cases "m_SkipIncludes r1")
      case True
      from Suc.prems(1) raw \<open>name = ''IncludeFile''\<close> True
      obtain val r2 b r3 where v: "ReadPropValue r1 = Inr (val, r2)"
        and d: "DiscardEmptySpace r2 = Inr (b, r3)"
        and n: "ReadPropName fuel files r3 = Some (Inr (v, r'))"
        by (auto split: sum.splits)
      from ReadPropValue_EndOfStreams_kept [OF v f1] have "m_EndOfStreams r2" .
      from EndOfStreams_kept(1) [OF d this] have "m_EndOfStreams r3" .
      from Suc.IH [OF n this] show ?thesis .
    next
      case False
      from Suc.prems(1) raw \<open>name = ''IncludeFile''\<close> False
      obtain b r2 where i: "StartIncludeFile files r1 = Inr (b, r2)"
        and n: "ReadPropName fuel files r2 = Some (Inr (v, r'))"
        by (auto split: sum.splits)
      from StartIncludeFile_EndOfStreams_kept [OF i f1] have "m_EndOfStreams r2" .
      from Suc.IH [OF n this] show ?thesis .
    qed
  qed
qed

subsection \<open>A property name without a value\<close>

lemma ReadNameLoop_line_break:
  assumes "good st" "chars st = pre @ c # rest" "c = CHR 0x0A \<or> c = CHR 0x0D" "CHR ''='' \<notin> set pre"
  shows "\<exists>st'. ReadNameLoop st ret = NameNoValue st'"
  using assms
proof (induction pre arbitrary: st ret)
  case Nil
  then have "ReadNameStep st ret = NameStop (NameNoValue st)"
    by (auto simp: ReadNameStep_def peek_def as_char_def)
  then show ?case by (simp add: ReadNameLoop.simps [of st])
next
  case (Cons x xs)
  have c: "chars st = x # (xs @ c # rest)" using Cons.prems(2) by simp
  have p: "peek st = (Some x, st)" using peek_good [OF Cons.prems(1) c] .
  show ?case
  proof (cases "x = CHR 0x0A \<or> x = CHR 0x0D \<or> x = CHR 0x09")
    case True
    with p Cons.prems(4) have "ReadNameStep st ret = NameStop (NameNoValue st)"
      by (auto simp: ReadNameStep_def as_char_def)
    then show ?thesis by (simp add: ReadNameLoop.simps [of st])
  next
    case False
    let ?st2 = "st\<lparr>chars := xs @ c # rest\<rparr>"
    have g: "get st = (Some x, ?st2)" using get_good [OF Cons.prems(1) c] .
    have g2: "good ?st2" using Cons.prems(1) by (simp add: good_def)
    from False p g g2 Cons.prems(4)
    have "ReadNameStep st ret = NameMore ?st2 (ret @ [x])"
      by (auto simp: ReadNameStep_def as_char_def good_def)
    then have "ReadNameLoop st ret = ReadNameLoop ?st2 (ret @ [x])"
      by (simp add: ReadNameLoop.simps [of st])
    moreover have "\<exists>st'. ReadNameLoop ?st2 (ret @ [x]) = NameNoValue st'"
      using Cons.prems(3,4) by (intro Cons.IH [OF g2]) simp_all
    ultimately show ?thesis by simp
  qed
qed

text \<open>
  C6. A line break before the \<^verbatim>\<open>=\<close>. When, after the skip of insignificant content,
  the readable current stream holds a newline or carriage return with no \<^verbatim>\<open>=\<close> before
  it, \<open>ReadPropName\<close> (with any fuel but none) returns no name: it ends in the abort of
  \<open>ReportError\<close>, whose message carries the file path and the line of the Reader at
  that point.
\<close>

theorem ReadPropName_line_break_aborts:
  assumes "DiscardEmptySpace r = Inr (b, r1)"
    and "cur_stream r1 = Some st" and "good st"
    and "chars st = pre @ c # rest" and "c = CHR 0x0A \<or> c = CHR 0x0D"
    and "CHR ''='' \<notin> set pre"
  shows "ReadPropName (Suc fuel) files r =
           Some (Inl (Abort ''Property name wasn't followed by a value''
                        (m_FilePath r1) (m_CurrentLine r1)))"
proof -
  from ReadNameLoop_line_break [OF assms(3,4,5,6), of "[]"] obtain st'
    where l: "ReadNameLoop st [] = NameNoValue st'" by blast
  have "ReadRawPropName r =
          Inl (Abort ''Property name wasn't followed by a value'' (m_FilePath r1) (m_CurrentLine r1))"
    by (simp add: ReadRawPropName_def assms(1,2) l ReportError_def RTEAbort_def set_stream_def)
  then show ?thesis by simp
qed

theorem ReadPropName_line_break_aborts_witness:
  "ReadPropName 1 (\<lambda>path. None)
     (opened ''Base.rte/Index.ini'' (''  PropA'' @ [CHR 0x0A] @ ''= 1''))
   = Some (Inl (Abort ''Property name wasn't followed by a value'' ''Base.rte/Index.ini'' 1))"
proof -
  let ?ini = "opened ''Base.rte/Index.ini'' (''  PropA'' @ [CHR 0x0A] @ ''= 1'')"
  let ?obs = "opened ''Base.rte/Index.ini'' (''PropA'' @ [CHR 0x0A] @ ''= 1'')"
  let ?st = "\<lparr>chars = ''PropA'' @ [CHR 0x0A] @ ''= 1'', eofbit = False, failbit = False\<rparr>"
  have a: "DiscardEmptySpace ?ini = Inr (True, ?obs)" by code_simp
  have b: "cur_stream ?obs = Some ?st" by (simp add: opened_def cur_stream_def)
  have c: "good ?st" by (simp add: good_def)
  have d: "chars ?st = ''PropA'' @ CHR 0x0A # ''= 1''" by simp
  have e: "CHR ''='' \<notin> set ''PropA''" by simp
  from ReadPropName_line_break_aborts [OF a b c d _ e, of 0 "\<lambda>path. None"]
  show ?thesis by (simp add: opened_def)
qed

subsection \<open>What the skip keeps account of\<close>

lemma last_indent_Cons:
  "last_indent (t # ts) =
     (if ate_line ts then last_indent ts
      else int (count_list ts Tab) + (if t = Tab then 1 else 0))"
proof (cases "ate_line ts")
  case True
  then have "\<not> (\<forall>x \<in> set (rev ts). x \<noteq> Newline \<and> x \<noteq> Return)"
    by (auto simp: ate_line_def)
  then have "takeWhile (\<lambda>t. t \<noteq> Newline \<and> t \<noteq> Return) (rev ts @ [t])
             = takeWhile (\<lambda>t. t \<noteq> Newline \<and> t \<noteq> Return) (rev ts)"
    by (metis (mono_tags, lifting) takeWhile_append1)
  with True show ?thesis by (simp add: last_indent_def)
next
  case False
  then have all: "\<forall>x \<in> set (rev ts). x \<noteq> Newline \<and> x \<noteq> Return"
    by (auto simp: ate_line_def)
  then have "takeWhile (\<lambda>t. t \<noteq> Newline \<and> t \<noteq> Return) (rev ts @ [t])
             = rev ts @ takeWhile (\<lambda>t. t \<noteq> Newline \<and> t \<noteq> Return) [t]"
    by (subst takeWhile_append2) auto
  with False show ?thesis by (auto simp: last_indent_def)
qed

lemma SkipToLineEnd_remark:
  assumes "CHR 0x0A \<notin> set body" "CHR 0x0D \<notin> set body" "c = CHR 0x0A \<or> c = CHR 0x0D"
  shows "SkipToLineEnd (body @ c # cs) = c # cs"
  using assms by (induction body) auto

lemma BlockCommentScan_remark:
  assumes "\<not> has_close (xs @ ''*'')"
  shows "BlockCommentScan (xs @ ''*/'' @ rest) line
         = (CHR ''/'' # rest, False, False, line + int (count_list xs (CHR 0x0A)))"
  using assms
proof (induction xs arbitrary: line)
  case Nil
  show ?case by simp
next
  case (Cons x xs)
  have nc: "\<not> has_close (xs @ ''*'')"
    using Cons.prems by (cases xs) auto
  show ?case
  proof (cases xs)
    case Nil
    with Cons.prems show ?thesis by auto
  next
    case (Cons y ys)
    with Cons.prems have "\<not> (x = CHR ''*'' \<and> y = CHR ''/'')" by simp
    with Cons Cons.IH [OF nc] show ?thesis by (auto simp: algebra_simps)
  qed
qed

lemma good_chars_update [simp]: "good (st\<lparr>chars := cs\<rparr>) = good st"
  by (simp add: good_def)

lemma good_flags_update:
  "good st \<Longrightarrow> st\<lparr>chars := cs, eofbit := False, failbit := False\<rparr> = st\<lparr>chars := cs\<rparr>"
  by (cases st) (simp add: good_def)

lemma DiscardLoop_Continue:
  "DiscardStep st indent ateLine line = Continue st' indent' ateLine' line' \<Longrightarrow>
   DiscardLoop st indent ateLine line = DiscardLoop st' indent' ateLine' line'"
  by (simp add: DiscardLoop.simps [of st])

lemma DiscardLoop_blank:
  assumes "good st" "chars st = render t @ tail" "wf_blanks [t] tail"
  shows "DiscardLoop st indent ateLine line =
         DiscardLoop (st\<lparr>chars := tail\<rparr>) (indent_step t indent)
           (ateLine \<or> t = Newline \<or> t = Return) (line + lines_of t)"
proof (cases t)
  case Space
  with assms show ?thesis
    by (intro DiscardLoop_Continue) (simp add: DiscardStep_good [OF assms(1)])
next
  case Tab
  with assms show ?thesis
    by (intro DiscardLoop_Continue) (simp add: DiscardStep_good [OF assms(1)])
next
  case Newline
  with assms show ?thesis
    by (intro DiscardLoop_Continue) (simp add: DiscardStep_good [OF assms(1)])
next
  case Return
  with assms show ?thesis
    by (intro DiscardLoop_Continue) (simp add: DiscardStep_good [OF assms(1)])
next
  case (LineRemark body)
  with assms(3) obtain c cs where tl: "tail = c # cs" and c: "c = CHR 0x0A \<or> c = CHR 0x0D"
    and b: "CHR 0x0A \<notin> set body" "CHR 0x0D \<notin> set body"
    by (auto split: list.splits)
  have ch: "chars st = CHR ''/'' # (CHR ''/'' # body @ tail)"
    using assms(2) LineRemark by simp
  have "SkipToLineEnd ((CHR ''/'' # body) @ c # cs) = c # cs"
    using b c by (intro SkipToLineEnd_remark) auto
  then have "LineComment (st\<lparr>chars := CHR ''/'' # body @ tail\<rparr>) = st\<lparr>chars := tail\<rparr>"
    using tl good_flags_update [OF assms(1), of tail] by (simp add: LineComment_def)
  then have "DiscardStep st indent ateLine line = Continue (st\<lparr>chars := tail\<rparr>) indent ateLine line"
    by (simp add: DiscardStep_good [OF assms(1) ch])
  with LineRemark show ?thesis
    by (intro DiscardLoop_Continue) simp
next
  case (BlockRemark body)
  with assms(3) have nc: "\<not> has_close ((CHR ''*'' # body) @ ''*'')" by simp
  have ch: "chars st = CHR ''/'' # (CHR ''*'' # body @ ''*/'' @ tail)"
    using assms(2) BlockRemark by simp
  let ?st1 = "st\<lparr>chars := CHR ''*'' # body @ ''*/'' @ tail\<rparr>"
  have "BlockCommentScan ((CHR ''*'' # body) @ ''*/'' @ tail) line
         = (CHR ''/'' # tail, False, False, line + int (count_list (CHR ''*'' # body) (CHR 0x0A)))"
    using BlockCommentScan_remark [OF nc] .
  then have bc: "BlockComment ?st1 line
         = (st\<lparr>chars := CHR ''/'' # tail\<rparr>, line + int (count_list body (CHR 0x0A)))"
    using good_flags_update [OF assms(1), of "CHR ''/'' # tail"] by (simp add: BlockComment_def)
  have ig: "ignore1 (st\<lparr>chars := CHR ''/'' # tail\<rparr>) = st\<lparr>chars := tail\<rparr>"
    using assms(1) by (simp add: ignore1_def)
  have "DiscardStep st indent ateLine line
        = Continue (st\<lparr>chars := tail\<rparr>) indent ateLine (line + int (count_list body (CHR 0x0A)))"
    using assms(1) bc ig by (simp add: DiscardStep_good [OF assms(1) ch] good_def)
  with BlockRemark show ?thesis
    by (intro DiscardLoop_Continue) simp
next
  case StarRemark
  have ch: "chars st = CHR ''/'' # (CHR ''*'' # CHR ''/'' # tail)"
    using assms(2) StarRemark by simp
  have bc: "BlockComment (st\<lparr>chars := CHR ''*'' # CHR ''/'' # tail\<rparr>) line
         = (st\<lparr>chars := CHR ''/'' # tail\<rparr>, line)"
    using good_flags_update [OF assms(1), of "CHR ''/'' # tail"] by (simp add: BlockComment_def)
  have ig: "ignore1 (st\<lparr>chars := CHR ''/'' # tail\<rparr>) = st\<lparr>chars := tail\<rparr>"
    using assms(1) by (simp add: ignore1_def)
  have "DiscardStep st indent ateLine line = Continue (st\<lparr>chars := tail\<rparr>) indent ateLine line"
    using assms(1) bc ig by (simp add: DiscardStep_good [OF assms(1) ch] good_def)
  with StarRemark show ?thesis
    by (intro DiscardLoop_Continue) simp
qed

lemma indent_after_Cons:
  "indent_after (t # ts) indent = indent_after ts (indent_step t indent)"
  by (cases t) (auto simp: indent_after_def last_indent_Cons ate_line_def)

lemma wf_blanks_Cons: "wf_blanks (t # ts) rest \<Longrightarrow> wf_blanks ts rest"
  by (cases t) auto

lemma wf_blanks_head:
  "wf_blanks (t # ts) rest \<Longrightarrow> wf_blanks [t] (concat (map render ts) @ rest)"
  by (cases t) auto

lemma DiscardLoop_blanks:
  assumes "good st" "chars st = concat (map render ts) @ rest" "wf_blanks ts rest"
    "at_content (st\<lparr>chars := rest\<rparr>)"
  shows "DiscardLoop st indent ateLine line =
         Content (st\<lparr>chars := rest\<rparr>) (indent_after ts indent) (ateLine \<or> ate_line ts)
           (line + lines_in ts)"
  using assms
proof (induction ts arbitrary: st indent ateLine line)
  case Nil
  then have "st\<lparr>chars := rest\<rparr> = st" by simp
  with Nil at_content_loop [of st] show ?case
    by (simp add: indent_after_def ate_line_def lines_in_def)
next
  case (Cons t ts)
  let ?tail = "concat (map render ts) @ rest"
  let ?st2 = "st\<lparr>chars := ?tail\<rparr>"
  have one: "DiscardLoop st indent ateLine line =
         DiscardLoop ?st2 (indent_step t indent)
           (ateLine \<or> t = Newline \<or> t = Return) (line + lines_of t)"
    using Cons.prems(2) by (intro DiscardLoop_blank [OF Cons.prems(1) _ wf_blanks_head [OF Cons.prems(3)]]) simp
  have "DiscardLoop ?st2 (indent_step t indent) (ateLine \<or> t = Newline \<or> t = Return) (line + lines_of t)
        = Content (?st2\<lparr>chars := rest\<rparr>) (indent_after ts (indent_step t indent))
            ((ateLine \<or> t = Newline \<or> t = Return) \<or> ate_line ts) (line + lines_of t + lines_in ts)"
    using Cons.prems by (intro Cons.IH) (simp_all add: wf_blanks_Cons [OF Cons.prems(3)])
  with one show ?case
    by (auto simp: indent_after_Cons ate_line_def lines_in_def)
qed

lemma DiscardLoop_not_good:
  assumes "\<not> good st"
  shows "DiscardLoop st indent ateLine line \<noteq> Content st' indent' ateLine' line'"
  using assms by (simp add: DiscardLoop.simps [of st] DiscardStep_not_good)

lemma SkipToLineEnd_split:
  "\<exists>pre. cs = pre @ SkipToLineEnd cs \<and> CHR 0x0A \<notin> set pre \<and> CHR 0x0D \<notin> set pre \<and>
         (case SkipToLineEnd cs of [] \<Rightarrow> True | c # cs' \<Rightarrow> c = CHR 0x0A \<or> c = CHR 0x0D)"
proof (induction cs)
  case Nil
  show ?case by simp
next
  case (Cons c cs)
  show ?case
  proof (cases "c = CHR 0x0A \<or> c = CHR 0x0D")
    case True
    then have "c # cs = [] @ SkipToLineEnd (c # cs)" by auto
    with True show ?thesis by (intro exI [of _ "[]"]) auto
  next
    case False
    from Cons obtain pre where p: "cs = pre @ SkipToLineEnd cs" "CHR 0x0A \<notin> set pre"
      "CHR 0x0D \<notin> set pre"
      "case SkipToLineEnd cs of [] \<Rightarrow> True | c # cs' \<Rightarrow> c = CHR 0x0A \<or> c = CHR 0x0D"
      by blast
    from False p show ?thesis by (intro exI [of _ "c # pre"]) auto
  qed
qed

lemma BlockCommentScan_found:
  "BlockCommentScan cs line = (rest5, False, f, line') \<Longrightarrow>
   \<exists>xs rest6. cs = xs @ ''*/'' @ rest6 \<and> rest5 = CHR ''/'' # rest6 \<and>
              \<not> has_close (xs @ ''*'') \<and> line' = line + int (count_list xs (CHR 0x0A)) \<and> \<not> f"
proof (induction cs arbitrary: line)
  case Nil
  then show ?case by simp
next
  case (Cons c cs)
  show ?case
  proof (cases "c = CHR ''*''")
    case True
    note star = True
    show ?thesis
    proof (cases cs)
      case Nil
      with Cons.prems star show ?thesis by simp
    next
      case (Cons d ds)
      show ?thesis
      proof (cases "d = CHR ''/''")
        case True
        with Cons.prems star Cons have "rest5 = CHR ''/'' # ds \<and> line' = line \<and> \<not> f" by auto
        with star Cons True show ?thesis
          by (intro exI [of _ "[]"] exI [of _ ds]) simp
      next
        case False
        with Cons.prems star Cons have "BlockCommentScan cs line = (rest5, False, f, line')"
          by simp
        from Cons.IH [OF this] obtain xs rest6 where
          x: "cs = xs @ ''*/'' @ rest6" "rest5 = CHR ''/'' # rest6" "\<not> has_close (xs @ ''*'')"
             "line' = line + int (count_list xs (CHR 0x0A))" "\<not> f"
          by blast
        have "hd (xs @ ''*'') \<noteq> CHR ''/''"
          using x(1) Cons False by (cases xs) auto
        then have "\<not> has_close (c # xs @ ''*'')"
          using x(3) by (cases "xs @ ''*''") auto
        with x star show ?thesis
          by (intro exI [of _ "c # xs"] exI [of _ rest6]) auto
      qed
    qed
  next
    case False
    with Cons.prems have
      "BlockCommentScan cs (if c = CHR 0x0A then line + 1 else line) = (rest5, False, f, line')"
      by simp
    from Cons.IH [OF this] obtain xs rest6 where
      x: "cs = xs @ ''*/'' @ rest6" "rest5 = CHR ''/'' # rest6" "\<not> has_close (xs @ ''*'')"
         "line' = (if c = CHR 0x0A then line + 1 else line) + int (count_list xs (CHR 0x0A))" "\<not> f"
      by blast
    have "\<not> has_close (c # xs @ ''*'')"
      using x(3) False by (cases "xs @ ''*''") auto
    with x False show ?thesis
      by (intro exI [of _ "c # xs"] exI [of _ rest6]) auto
  qed
qed

lemma DiscardStep_Continue_blank:
  assumes "DiscardStep st indent ateLine line = Continue st2 indent2 ateLine2 line2"
    and "good st" and "good st2"
  shows "\<exists>t. chars st = render t @ chars st2 \<and> wf_blanks [t] (chars st2) \<and>
             st2 = st\<lparr>chars := chars st2\<rparr>"
proof (cases "chars st")
  case Nil
  with assms show ?thesis by (simp add: DiscardStep_empty)
next
  case (Cons c cs)
  note step = assms(1) [unfolded DiscardStep_good [OF assms(2) Cons]]
  consider (sp) "c = CHR '' ''" | (tab) "c = CHR 0x09" | (nl) "c = CHR 0x0A" | (cr) "c = CHR 0x0D"
    | (line) "c = CHR ''/''" "cs \<noteq> []" "hd cs = CHR ''/''"
    | (block) "c = CHR ''/''" "cs \<noteq> []" "hd cs = CHR ''*''"
    using step by (auto split: if_splits)
  then show ?thesis
  proof cases
    case sp
    with step Cons have "st2 = st\<lparr>chars := cs\<rparr>" by simp
    with sp Cons show ?thesis by (intro exI [of _ Space]) simp
  next
    case tab
    with step Cons have "st2 = st\<lparr>chars := cs\<rparr>" by simp
    with tab Cons show ?thesis by (intro exI [of _ Tab]) simp
  next
    case nl
    with step Cons have "st2 = st\<lparr>chars := cs\<rparr>" by simp
    with nl Cons show ?thesis by (intro exI [of _ Newline]) simp
  next
    case cr
    with step Cons have "st2 = st\<lparr>chars := cs\<rparr>" by simp
    with cr Cons show ?thesis by (intro exI [of _ Return]) simp
  next
    case line
    with step have s2: "st2 = LineComment (st\<lparr>chars := cs\<rparr>)" by simp
    with assms(3) have ne: "SkipToLineEnd cs \<noteq> []"
      by (auto simp: LineComment_def good_def)
    from SkipToLineEnd_split [of cs] obtain pre where
      p: "cs = pre @ SkipToLineEnd cs" "CHR 0x0A \<notin> set pre" "CHR 0x0D \<notin> set pre"
         "case SkipToLineEnd cs of [] \<Rightarrow> True | c # cs' \<Rightarrow> c = CHR 0x0A \<or> c = CHR 0x0D"
      by blast
    from ne p(4) have brk: "hd (SkipToLineEnd cs) = CHR 0x0A \<or> hd (SkipToLineEnd cs) = CHR 0x0D"
      by (cases "SkipToLineEnd cs") auto
    have "pre \<noteq> []"
    proof
      assume "pre = []"
      with p(1) have "hd cs = hd (SkipToLineEnd cs)" by simp
      with brk line(3) show False by auto
    qed
    moreover from this have "hd cs = hd pre"
      using p(1) by (metis hd_append2)
    ultimately obtain body where b: "pre = CHR ''/'' # body"
      using line(3) by (cases pre) auto
    have s2': "st2 = st\<lparr>chars := SkipToLineEnd cs\<rparr>"
      using s2 ne good_flags_update [OF assms(2), of "SkipToLineEnd cs"]
      by (simp add: LineComment_def)
    have ch: "chars st = render (LineRemark body) @ chars st2"
      using Cons line(1) p(1) b s2' by simp
    have wf: "wf_blanks [LineRemark body] (chars st2)"
      using p(2,3,4) b s2' ne by (cases "SkipToLineEnd cs") auto
    from ch wf s2' show ?thesis by (intro exI [of _ "LineRemark body"]) simp
  next
    case block
    let ?bc = "fst (BlockComment (st\<lparr>chars := cs\<rparr>) line)"
    obtain rest5 e f line' where scan: "BlockCommentScan cs line = (rest5, e, f, line')"
      by (cases "BlockCommentScan cs line") auto
    then have bc: "?bc = st\<lparr>chars := rest5, eofbit := e, failbit := f\<rparr>"
      by (simp add: BlockComment_def)
    from step block have s2: "st2 = (if eofbit ?bc then ?bc else ignore1 ?bc)" by simp
    have "\<not> e"
    proof
      assume e
      with s2 bc have "eofbit st2" by simp
      with assms(3) show False by (simp add: good_def)
    qed
    with scan have "BlockCommentScan cs line = (rest5, False, f, line')" by simp
    from BlockCommentScan_found [OF this] obtain xs rest6 where
      x: "cs = xs @ ''*/'' @ rest6" "rest5 = CHR ''/'' # rest6" "\<not> has_close (xs @ ''*'')" "\<not> f"
      by blast
    have bc': "?bc = st\<lparr>chars := CHR ''/'' # rest6\<rparr>"
      using bc x(2,4) \<open>\<not> e\<close> good_flags_update [OF assms(2), of "CHR ''/'' # rest6"] by simp
    have s2': "st2 = st\<lparr>chars := rest6\<rparr>"
      using s2 bc' assms(2) by (simp add: ignore1_def good_def)
    show ?thesis
    proof (cases xs)
      case Nil
      with x(1) Cons block(1) s2' have "chars st = render StarRemark @ chars st2" by simp
      with s2' show ?thesis by (intro exI [of _ StarRemark]) simp
    next
      case (Cons y ys)
      with x(1) block(3) have y: "y = CHR ''*''" by simp
      with Cons x(1) \<open>chars st = c # cs\<close> block(1) s2'
      have ch: "chars st = render (BlockRemark ys) @ chars st2" by simp
      have wf: "wf_blanks [BlockRemark ys] (chars st2)"
        using x(3) Cons y by simp
      from ch wf s2' show ?thesis by (intro exI [of _ "BlockRemark ys"]) simp
    qed
  qed
qed

lemma wf_blanks_ConsI:
  "wf_blanks [t] (concat (map render ts) @ rest) \<Longrightarrow> wf_blanks ts rest \<Longrightarrow>
   wf_blanks (t # ts) rest"
  by (cases t) auto

lemma DiscardLoop_Content_blanks:
  "DiscardLoop st indent ateLine line = Content st' indent' ateLine' line' \<Longrightarrow>
   good st \<Longrightarrow> good st' \<Longrightarrow>
   \<exists>ts. chars st = concat (map render ts) @ chars st' \<and> wf_blanks ts (chars st') \<and>
        st' = st\<lparr>chars := chars st'\<rparr>"
proof (induction st indent ateLine line rule: DiscardLoop.induct)
  case (1 st indent ateLine line)
  note loop = "1.prems"(1) and g = "1.prems"(2) and g' = "1.prems"(3)
  show ?case
  proof (cases "DiscardStep st indent ateLine line")
    case (Stop res)
    with loop have r: "DiscardStep st indent ateLine line = Stop (Content st' indent' ateLine' line')"
      by (simp add: DiscardLoop.simps [of st])
    have "st' = st"
    proof (cases "chars st")
      case Nil
      with r g show ?thesis by (simp add: DiscardStep_empty)
    next
      case (Cons c cs)
      from r [unfolded DiscardStep_good [OF g Cons]] g' show ?thesis
        by (auto simp: good_def split: if_splits)
    qed
    then show ?thesis by (intro exI [of _ "[]"]) simp
  next
    case (Continue st2 indent2 ateLine2 line2)
    with loop have l2: "DiscardLoop st2 indent2 ateLine2 line2 = Content st' indent' ateLine' line'"
      by (simp add: DiscardLoop.simps [of st])
    have g2: "good st2"
      using l2 DiscardLoop_not_good [of st2] by blast
    from "1.IH" [OF Continue l2 g2 g'] obtain ts where
      t: "chars st2 = concat (map render ts) @ chars st'" "wf_blanks ts (chars st')"
         "st' = st2\<lparr>chars := chars st'\<rparr>"
      by blast
    from DiscardStep_Continue_blank [OF Continue g g2] obtain b where
      b: "chars st = render b @ chars st2" "wf_blanks [b] (chars st2)"
         "st2 = st\<lparr>chars := chars st2\<rparr>"
      by blast
    have "render b @ chars st2 = concat (map render (b # ts)) @ chars st'"
      by (simp only: t(1) list.map concat.simps append_assoc)
    then have "chars st = concat (map render (b # ts)) @ chars st'"
      by (simp only: b(1))
    moreover have "wf_blanks (b # ts) (chars st')"
    proof (rule wf_blanks_ConsI)
      from b(2) show "wf_blanks [b] (concat (map render ts) @ chars st')"
        by (simp only: t(1))
    next
      from t(2) show "wf_blanks ts (chars st')" .
    qed
    moreover have "st' = st\<lparr>chars := chars st'\<rparr>"
    proof -
      have "st2\<lparr>chars := chars st'\<rparr> = (st\<lparr>chars := chars st2\<rparr>)\<lparr>chars := chars st'\<rparr>"
        using b(3) by (rule arg_cong [where f = "\<lambda>s. s\<lparr>chars := chars st'\<rparr>"])
      also have "\<dots> = st\<lparr>chars := chars st'\<rparr>" by simp
      finally have eq: "st2\<lparr>chars := chars st'\<rparr> = st\<lparr>chars := chars st'\<rparr>" .
      show ?thesis by (rule trans [OF t(3) eq])
    qed
    ultimately show ?thesis by blast
  qed
qed

lemma DiscardEmptySpace_true_blanks:
  assumes c: "cur_stream r = Some st" and g: "good st" and stack: "m_StreamStack r = []"
    and des: "DiscardEmptySpace r = Inr (True, r')"
    and c': "cur_stream r' = Some st'" and g': "good st'"
  shows "\<exists>ts. chars st = concat (map render ts) @ chars st' \<and> wf_blanks ts (chars st') \<and>
              at_content st' \<and> st' = st\<lparr>chars := chars st'\<rparr>"
proof (cases "DiscardLoop st 0 False (m_CurrentLine r)")
  case (Content st1 indent ateLine line)
  let ?r1 = "set_stream st1 (r\<lparr>m_CurrentLine := line\<rparr>)"
  have c1: "cur_stream ?r1 = Some st1"
    using c by (auto simp: cur_stream_def set_stream_def split: if_splits)
  from des c Content have "streams r' = streams ?r1 \<and> m_pStream r' = m_pStream ?r1"
    by (auto simp: DiscardEmptySpace.simps [of r] split: if_splits)
  then have "cur_stream r' = cur_stream ?r1" by (simp add: cur_stream_def)
  with c1 c' have s: "st1 = st'" by simp
  from Content have l: "DiscardLoop st 0 False (m_CurrentLine r) = Content st' indent ateLine line"
    unfolding s .
  from DiscardLoop_Content_blanks [OF l g g'] loop_Content_good [OF l g']
  show ?thesis by blast
next
  case (EndOfStream st1 line)
  have "EndIncludeFile (set_stream st1 (r\<lparr>m_CurrentLine := line\<rparr>))
          = Inr (False, (set_stream st1 (r\<lparr>m_CurrentLine := line\<rparr>))\<lparr>m_EndOfStreams := True\<rparr>)"
    by (rule EndIncludeFile_empty_stack) (simp add: stack)
  with des c EndOfStream show ?thesis
    by (simp add: DiscardEmptySpace.simps [of r])
next
  case (Junk st1 line)
  with des c show ?thesis
    by (simp add: DiscardEmptySpace.simps [of r] ReportError_def RTEAbort_def)
qed

text \<open>
  C7 (as amended). Skip accounting. Let the current stream be readable. If it holds a
  list of insignificant items (spaces, tabs, newlines, carriage returns, comments)
  followed by real content, then \<open>DiscardEmptySpace\<close> returns true with the stream at that
  content. Spaces and comments do not count towards the indent, each tab adds one, each
  newline or carriage return puts it back to \<open>0\<close> and marks that a line was eaten; the
  line counter grows by one for each newline (also inside a block comment) but not for a
  carriage return. If and only if a line was eaten, \<open>m_IndentDifference\<close> becomes the
  indent minus the old \<open>m_PreviousIndent\<close> and \<open>m_PreviousIndent\<close> the indent; otherwise
  both stay as they were. Nothing else makes the call stop at content: when no file is
  waiting on the stack and the call returns true with the stream still readable, what it
  has skipped is such a list of items and where it stands is real content.
\<close>

theorem DiscardEmptySpace_accounting:
  assumes "cur_stream r = Some st" and "good st"
  shows "(chars st = concat (map render ts) @ rest \<and> wf_blanks ts rest \<and>
          at_content (st\<lparr>chars := rest\<rparr>) \<longrightarrow>
          DiscardEmptySpace r =
            Inr (True,
              if ate_line ts
              then (set_stream (st\<lparr>chars := rest\<rparr>)
                      (r\<lparr>m_CurrentLine := m_CurrentLine r + lines_in ts\<rparr>))
                     \<lparr>m_IndentDifference := last_indent ts - m_PreviousIndent r,
                      m_PreviousIndent := last_indent ts\<rparr>
              else set_stream (st\<lparr>chars := rest\<rparr>)
                     (r\<lparr>m_CurrentLine := m_CurrentLine r + lines_in ts\<rparr>))) \<and>
         (m_StreamStack r = [] \<and> DiscardEmptySpace r = Inr (True, r') \<and>
          cur_stream r' = Some st' \<and> good st' \<longrightarrow>
          (\<exists>skipped. chars st = concat (map render skipped) @ chars st' \<and>
             wf_blanks skipped (chars st') \<and> at_content st' \<and>
             st' = st\<lparr>chars := chars st'\<rparr>))"
proof (intro conjI impI)
  assume h: "chars st = concat (map render ts) @ rest \<and> wf_blanks ts rest \<and>
          at_content (st\<lparr>chars := rest\<rparr>)"
  then have h1: "chars st = concat (map render ts) @ rest" and h2: "wf_blanks ts rest"
    and h3: "at_content (st\<lparr>chars := rest\<rparr>)" by blast+
  have "DiscardLoop st 0 False (m_CurrentLine r) =
          Content (st\<lparr>chars := rest\<rparr>) (indent_after ts 0) (ate_line ts)
            (m_CurrentLine r + lines_in ts)"
    using DiscardLoop_blanks [OF assms(2) h1 h2 h3, of 0 False "m_CurrentLine r"] by simp
  then show "DiscardEmptySpace r =
            Inr (True,
              if ate_line ts
              then (set_stream (st\<lparr>chars := rest\<rparr>)
                      (r\<lparr>m_CurrentLine := m_CurrentLine r + lines_in ts\<rparr>))
                     \<lparr>m_IndentDifference := last_indent ts - m_PreviousIndent r,
                      m_PreviousIndent := last_indent ts\<rparr>
              else set_stream (st\<lparr>chars := rest\<rparr>)
                     (r\<lparr>m_CurrentLine := m_CurrentLine r + lines_in ts\<rparr>))"
    by (simp add: DiscardEmptySpace.simps [of r] assms(1) indent_after_def)
next
  assume h: "m_StreamStack r = [] \<and> DiscardEmptySpace r = Inr (True, r') \<and>
          cur_stream r' = Some st' \<and> good st'"
  then have h1: "m_StreamStack r = []" and h2: "DiscardEmptySpace r = Inr (True, r')"
    and h3: "cur_stream r' = Some st'" and h4: "good st'" by blast+
  from DiscardEmptySpace_true_blanks [OF assms h1 h2 h3 h4]
  show "\<exists>skipped. chars st = concat (map render skipped) @ chars st' \<and>
             wf_blanks skipped (chars st') \<and> at_content st' \<and>
             st' = st\<lparr>chars := chars st'\<rparr>" .
qed

theorem DiscardEmptySpace_accounting_witness:
  "DiscardEmptySpace
     ((opened ''Base.rte/Index.ini''
        ([CHR 0x09, CHR 0x0A] @ '' // c'' @ [CHR 0x0A, CHR 0x09, CHR 0x09] @ ''/* a'' @ [CHR 0x0A]
          @ ''b */ '' @ [CHR 0x0D, CHR 0x09] @ ''X = 1''))
      \<lparr>m_PreviousIndent := 3\<rparr>)
   = Inr (True,
       (opened ''Base.rte/Index.ini'' ''X = 1'')
         \<lparr>m_CurrentLine := 4, m_IndentDifference := - 2, m_PreviousIndent := 1\<rparr>) \<and>
   (\<exists>skipped.
      [CHR 0x09, CHR 0x0A] @ '' // c'' @ [CHR 0x0A, CHR 0x09, CHR 0x09] @ ''/* a'' @ [CHR 0x0A]
          @ ''b */ '' @ [CHR 0x0D, CHR 0x09] @ ''X = 1''
        = concat (map render skipped) @ ''X = 1'' \<and>
      wf_blanks skipped ''X = 1'')"
proof -
  let ?ts = "[Tab, Newline, Space, LineRemark '' c'', Newline, Tab, Tab,
              BlockRemark ('' a'' @ [CHR 0x0A] @ ''b ''), Space, Return, Tab]"
  let ?text = "[CHR 0x09, CHR 0x0A] @ '' // c'' @ [CHR 0x0A, CHR 0x09, CHR 0x09] @ ''/* a'' @ [CHR 0x0A]
          @ ''b */ '' @ [CHR 0x0D, CHR 0x09] @ ''X = 1''"
  let ?st = "\<lparr>chars = ?text, eofbit = False, failbit = False\<rparr>"
  let ?st' = "\<lparr>chars = ''X = 1'', eofbit = False, failbit = False\<rparr>"
  let ?ini = "(opened ''Base.rte/Index.ini'' ?text)\<lparr>m_PreviousIndent := 3\<rparr>"
  let ?fin = "(opened ''Base.rte/Index.ini'' ''X = 1'')
         \<lparr>m_CurrentLine := 4, m_IndentDifference := - 2, m_PreviousIndent := 1\<rparr>"
  have a: "cur_stream ?ini = Some ?st" by (simp add: opened_def cur_stream_def)
  have b: "good ?st" by (simp add: good_def)
  have c: "chars ?st = concat (map render ?ts) @ ''X = 1''" by simp
  have d: "wf_blanks ?ts ''X = 1''" by simp
  have e: "at_content (?st\<lparr>chars := ''X = 1''\<rparr>)" by (simp add: at_content_def good_def)
  have f: "ate_line ?ts" by (simp add: ate_line_def)
  have g: "lines_in ?ts = 3" by (simp add: lines_in_def)
  have h: "last_indent ?ts = 1" by (simp add: last_indent_def)
  have i: "m_StreamStack ?ini = []" by (simp add: opened_def)
  have j: "cur_stream ?fin = Some ?st'" by (simp add: opened_def cur_stream_def)
  have k: "good ?st'" by (simp add: good_def)
  note acc = DiscardEmptySpace_accounting [OF a b, of ?ts "''X = 1''" ?fin ?st']
  from acc c d e have "DiscardEmptySpace ?ini =
            Inr (True,
              if ate_line ?ts
              then (set_stream (?st\<lparr>chars := ''X = 1''\<rparr>)
                      (?ini\<lparr>m_CurrentLine := m_CurrentLine ?ini + lines_in ?ts\<rparr>))
                     \<lparr>m_IndentDifference := last_indent ?ts - m_PreviousIndent ?ini,
                      m_PreviousIndent := last_indent ?ts\<rparr>
              else set_stream (?st\<lparr>chars := ''X = 1''\<rparr>)
                     (?ini\<lparr>m_CurrentLine := m_CurrentLine ?ini + lines_in ?ts\<rparr>))"
    by blast
  with f g h have first: "DiscardEmptySpace ?ini = Inr (True, ?fin)"
    by (simp add: opened_def set_stream_def)
  from acc i first j k obtain skipped where
    s: "chars ?st = concat (map render skipped) @ chars ?st'" "wf_blanks skipped (chars ?st')"
    by blast
  have "?text = concat (map render skipped) @ ''X = 1''" using s(1) by simp
  moreover have "wf_blanks skipped ''X = 1''" using s(2) by simp
  ultimately have "\<exists>skipped. ?text = concat (map render skipped) @ ''X = 1'' \<and>
             wf_blanks skipped ''X = 1''"
    by blast
  with first show ?thesis by blast
qed

text \<open>
  C7 as first stated, with the line counter rising at every newline or carriage return
  and the update made by every call that ate a line, fails twice. A carriage return is
  consumed and the line counter stays at \<open>1\<close> (the code counts lines at newlines only, so
  that a line ending in both is not counted twice). And a call that eats a line and then
  meets the end of the stream returns through \<open>EndIncludeFile\<close> before the update: with
  \<open>m_PreviousIndent = 2\<close> and the text tab, newline, the difference stays \<open>0\<close> and
  \<open>m_PreviousIndent\<close> stays \<open>2\<close>.
\<close>

theorem DiscardEmptySpace_accounting_counterexample:
  "DiscardEmptySpace (opened ''Base.rte/Index.ini'' [CHR 0x0D, CHR ''X''])
     = Inr (True, opened ''Base.rte/Index.ini'' ''X'') \<and>
   m_CurrentLine (opened ''Base.rte/Index.ini'' ''X'')
     \<noteq> m_CurrentLine (opened ''Base.rte/Index.ini'' [CHR 0x0D, CHR ''X'']) + 1 \<and>
   DiscardEmptySpace
       ((opened ''Base.rte/Index.ini'' [CHR 0x09, CHR 0x0A])\<lparr>m_PreviousIndent := 2\<rparr>)
     = Inr (False,
         (opened ''Base.rte/Index.ini'' [])
           \<lparr>streams := [Some \<lparr>chars = [], eofbit = True, failbit = False\<rparr>],
            m_CurrentLine := 2, m_PreviousIndent := 2, m_IndentDifference := 0,
            m_EndOfStreams := True\<rparr>)"
  by code_simp

subsection \<open>The end of the last stream\<close>

lemma SkipToLineEnd_none:
  "CHR 0x0A \<notin> set cs \<Longrightarrow> CHR 0x0D \<notin> set cs \<Longrightarrow> SkipToLineEnd cs = []"
  by (induction cs) auto

lemma BlockCommentScan_open:
  "\<not> has_close cs \<Longrightarrow>
   \<exists>f. BlockCommentScan cs line = ([], True, f, line + int (count_list cs (CHR 0x0A)))"
proof (induction cs arbitrary: line)
  case Nil
  show ?case by auto
next
  case (Cons c cs)
  show ?case
  proof (cases cs)
    case Nil
    then show ?thesis by auto
  next
    case (Cons d ds)
    from Cons.prems Cons have nc: "\<not> (c = CHR ''*'' \<and> d = CHR ''/'')" and nh: "\<not> has_close cs"
      by simp_all
    show ?thesis
    proof (cases "c = CHR ''*''")
      case True
      with nc have "BlockCommentScan (c # cs) line = BlockCommentScan cs line"
        using Cons by simp
      moreover from True have "count_list (c # cs) (CHR 0x0A) = count_list cs (CHR 0x0A)" by simp
      ultimately show ?thesis using Cons.IH [OF nh, of line] by simp
    next
      case False
      then have "BlockCommentScan (c # cs) line
                 = BlockCommentScan cs (if c = CHR 0x0A then line + 1 else line)"
        by simp
      then show ?thesis
        using Cons.IH [OF nh, of "if c = CHR 0x0A then line + 1 else line"]
        by (cases "c = CHR 0x0A") (simp_all add: add.assoc)
    qed
  qed
qed

lemma DiscardLoop_not_good_eof:
  "\<not> good st \<Longrightarrow> eofbit st \<Longrightarrow>
   DiscardLoop st indent ateLine line = EndOfStream (st\<lparr>failbit := True\<rparr>) line"
  by (simp add: DiscardLoop.simps [of st] DiscardStep_not_good)

lemma DiscardLoop_at_end:
  assumes "good st" "at_end (chars st)"
  shows "\<exists>st'. DiscardLoop st indent ateLine line
                 = EndOfStream st' (line + int (count_list (chars st) (CHR 0x0A))) \<and>
               eofbit st' \<and> chars st' = []"
proof (cases "chars st")
  case Nil
  have "DiscardLoop st indent ateLine line = EndOfStream (st\<lparr>eofbit := True\<rparr>) line"
    by (simp add: DiscardLoop.simps [of st] DiscardStep_empty [OF assms(1) Nil])
  with Nil show ?thesis by simp
next
  case (Cons c cs)
  with assms(2) obtain d ds where c: "c = CHR ''/''" and cs: "cs = d # ds"
    and alt: "(d = CHR ''/'' \<and> CHR 0x0A \<notin> set ds \<and> CHR 0x0D \<notin> set ds) \<or>
              (d = CHR ''*'' \<and> \<not> has_close cs)"
    by (auto simp: at_end_def split: list.splits)
  from alt show ?thesis
  proof
    assume h: "d = CHR ''/'' \<and> CHR 0x0A \<notin> set ds \<and> CHR 0x0D \<notin> set ds"
    then have sk: "SkipToLineEnd cs = []" using cs by (simp add: SkipToLineEnd_none)
    let ?st2 = "st\<lparr>chars := [], eofbit := True, failbit := True\<rparr>"
    have lc: "LineComment (st\<lparr>chars := cs\<rparr>) = ?st2" by (simp add: LineComment_def sk)
    have step: "DiscardStep st indent ateLine line = Continue ?st2 indent ateLine line"
      unfolding DiscardStep_good [OF assms(1) Cons] using c cs h lc by simp
    have "DiscardLoop ?st2 indent ateLine line = EndOfStream (?st2\<lparr>failbit := True\<rparr>) line"
      by (rule DiscardLoop_not_good_eof) (simp_all add: good_def)
    with DiscardLoop_Continue [OF step]
    have l: "DiscardLoop st indent ateLine line = EndOfStream (?st2\<lparr>failbit := True\<rparr>) line"
      by simp
    have "count_list (chars st) (CHR 0x0A) = 0" using Cons c cs h by simp
    with l show ?thesis by simp
  next
    assume h: "d = CHR ''*'' \<and> \<not> has_close cs"
    let ?l = "line + int (count_list cs (CHR 0x0A))"
    from BlockCommentScan_open [of cs line] h obtain f where
      sc: "BlockCommentScan cs line = ([], True, f, ?l)" by blast
    let ?st5 = "st\<lparr>chars := [], eofbit := True, failbit := f\<rparr>"
    have bc: "BlockComment (st\<lparr>chars := cs\<rparr>) line = (?st5, ?l)"
      by (simp add: BlockComment_def sc)
    have step: "DiscardStep st indent ateLine line = Continue ?st5 indent ateLine ?l"
      unfolding DiscardStep_good [OF assms(1) Cons] using c cs h bc by simp
    have "DiscardLoop ?st5 indent ateLine ?l = EndOfStream (?st5\<lparr>failbit := True\<rparr>) ?l"
      by (rule DiscardLoop_not_good_eof) (simp_all add: good_def)
    with DiscardLoop_Continue [OF step]
    have l: "DiscardLoop st indent ateLine line = EndOfStream (?st5\<lparr>failbit := True\<rparr>) ?l"
      by simp
    have "count_list (chars st) (CHR 0x0A) = count_list cs (CHR 0x0A)" using Cons c by simp
    with l show ?thesis by simp
  qed
qed

lemma DiscardLoop_blanks_then:
  assumes "good st" "chars st = concat (map render ts) @ rest" "wf_blanks ts rest"
  shows "DiscardLoop st indent ateLine line =
         DiscardLoop (st\<lparr>chars := rest\<rparr>) (indent_after ts indent) (ateLine \<or> ate_line ts)
           (line + lines_in ts)"
  using assms
proof (induction ts arbitrary: st indent ateLine line)
  case Nil
  then have "st\<lparr>chars := rest\<rparr> = st" by simp
  then show ?case
    by (simp add: indent_after_def ate_line_def lines_in_def)
next
  case (Cons t ts)
  let ?tail = "concat (map render ts) @ rest"
  let ?st2 = "st\<lparr>chars := ?tail\<rparr>"
  have one: "DiscardLoop st indent ateLine line =
         DiscardLoop ?st2 (indent_step t indent)
           (ateLine \<or> t = Newline \<or> t = Return) (line + lines_of t)"
    using Cons.prems(2) by (intro DiscardLoop_blank [OF Cons.prems(1) _ wf_blanks_head [OF Cons.prems(3)]]) simp
  have two: "DiscardLoop ?st2 (indent_step t indent) (ateLine \<or> t = Newline \<or> t = Return) (line + lines_of t)
        = DiscardLoop (?st2\<lparr>chars := rest\<rparr>) (indent_after ts (indent_step t indent))
            ((ateLine \<or> t = Newline \<or> t = Return) \<or> ate_line ts) (line + lines_of t + lines_in ts)"
    using Cons.prems by (intro Cons.IH) (simp_all add: wf_blanks_Cons [OF Cons.prems(3)])
  have a1: "(ateLine \<or> ate_line (t # ts)) = ((ateLine \<or> t = Newline \<or> t = Return) \<or> ate_line ts)"
    by (auto simp: ate_line_def)
  have a2: "line + lines_in (t # ts) = line + lines_of t + lines_in ts"
    by (simp add: lines_in_def)
  have a3: "?st2\<lparr>chars := rest\<rparr> = st\<lparr>chars := rest\<rparr>" by simp
  show ?case
    unfolding indent_after_Cons a1 a2 using one two a3 by (rule_tac trans [OF one]) simp
qed

lemma DiscardStep_EndOfStream_eofbit:
  assumes "DiscardStep st indent ateLine line = Stop (EndOfStream st' line')"
  shows "eofbit st'"
proof (cases "good st")
  case False
  with assms show ?thesis by (auto simp: DiscardStep_not_good split: if_splits)
next
  case True
  show ?thesis
  proof (cases "chars st")
    case Nil
    with True assms show ?thesis by (auto simp: DiscardStep_empty)
  next
    case (Cons c cs)
    from assms show ?thesis
      unfolding DiscardStep_good [OF True Cons] by (simp split: if_splits)
  qed
qed

lemma DiscardLoop_EndOfStream_eofbit:
  "DiscardLoop st indent ateLine line = EndOfStream st' line' \<Longrightarrow> eofbit st'"
proof (induction st indent ateLine line rule: DiscardLoop.induct)
  case (1 st indent ateLine line)
  show ?case
  proof (cases "DiscardStep st indent ateLine line")
    case (Continue st2 i2 a2 l2)
    with "1.prems" have "DiscardLoop st2 i2 a2 l2 = EndOfStream st' line'"
      by (simp add: DiscardLoop.simps [of st])
    from "1.IH" [OF Continue this] show ?thesis .
  next
    case (Stop res)
    with "1.prems" have "DiscardStep st indent ateLine line = Stop (EndOfStream st' line')"
      by (simp add: DiscardLoop.simps [of st])
    then show ?thesis by (rule DiscardStep_EndOfStream_eofbit)
  qed
qed

lemma DiscardEmptySpace_EndOfStream:
  assumes c: "cur_stream r = Some st" and s: "m_StreamStack r = []"
    and l: "DiscardLoop st 0 False (m_CurrentLine r) = EndOfStream st' line"
  shows "DiscardEmptySpace r
           = Inr (False, (set_stream st' (r\<lparr>m_CurrentLine := line\<rparr>))\<lparr>m_EndOfStreams := True\<rparr>)"
    and "finished ((set_stream st' (r\<lparr>m_CurrentLine := line\<rparr>))\<lparr>m_EndOfStreams := True\<rparr>)"
proof -
  let ?r1 = "set_stream st' (r\<lparr>m_CurrentLine := line\<rparr>)"
  have "EndIncludeFile ?r1 = Inr (False, ?r1\<lparr>m_EndOfStreams := True\<rparr>)"
    by (rule EndIncludeFile_empty_stack) (simp add: s)
  with c l show "DiscardEmptySpace r = Inr (False, ?r1\<lparr>m_EndOfStreams := True\<rparr>)"
    by (simp add: DiscardEmptySpace.simps [of r])
  have c1: "cur_stream (r\<lparr>m_CurrentLine := line\<rparr>) = Some st"
    using c by (simp add: cur_stream_def split: if_splits)
  have s1: "m_StreamStack (r\<lparr>m_CurrentLine := line\<rparr>) = []" using s by simp
  from finished_set_stream [OF c1 DiscardLoop_EndOfStream_eofbit [OF l] s1]
  show "finished (?r1\<lparr>m_EndOfStreams := True\<rparr>)" .
qed

lemma DiscardEmptySpace_False_finished:
  assumes "DiscardEmptySpace r = Inr (False, r')"
  shows "finished r'"
proof -
  from assms obtain st where c: "cur_stream r = Some st"
    by (cases "cur_stream r") (simp_all add: DiscardEmptySpace.simps [of r])
  show ?thesis
  proof (cases "DiscardLoop st 0 False (m_CurrentLine r)")
    case (Content st1 indent ateLine line)
    with assms c show ?thesis by (simp add: DiscardEmptySpace.simps [of r])
  next
    case (Junk st1 line)
    with assms c show ?thesis
      by (simp add: DiscardEmptySpace.simps [of r] ReportError_def RTEAbort_def)
  next
    case (EndOfStream st1 line)
    let ?r1 = "set_stream st1 (r\<lparr>m_CurrentLine := line\<rparr>)"
    from assms c EndOfStream have e: "EndIncludeFile ?r1 = Inr (False, r')"
      by (simp add: DiscardEmptySpace.simps [of r])
    have s: "m_StreamStack r = []"
    proof (cases "m_StreamStack r")
      case Nil
      then show ?thesis .
    next
      case (Cons bk rest)
      then have "m_StreamStack ?r1 = bk # rest" by simp
      with e show ?thesis
        by (simp add: EndIncludeFile.simps [of ?r1] split: option.splits sum.splits prod.splits)
    qed
    from DiscardEmptySpace_EndOfStream [OF c s EndOfStream] assms show ?thesis by simp
  qed
qed

lemma DiscardEmptySpace_at_end:
  assumes c: "cur_stream r = Some st" and g: "good st" and s: "m_StreamStack r = []"
    and ch: "chars st = concat (map render ts) @ tail" and wf: "wf_blanks ts tail"
    and e: "at_end tail"
  shows "\<exists>st'. eofbit st' \<and> chars st' = [] \<and>
           DiscardEmptySpace r
             = Inr (False,
                 (set_stream st'
                    (r\<lparr>m_CurrentLine :=
                         m_CurrentLine r + lines_in ts + int (count_list tail (CHR 0x0A))\<rparr>))
                   \<lparr>m_EndOfStreams := True\<rparr>)"
proof -
  let ?st1 = "st\<lparr>chars := tail\<rparr>"
  have g1: "good ?st1" using g by simp
  have e1: "at_end (chars ?st1)" using e by simp
  from DiscardLoop_at_end [OF g1 e1, of "indent_after ts 0" "False \<or> ate_line ts"
      "m_CurrentLine r + lines_in ts"]
  obtain st' where
    l1: "DiscardLoop ?st1 (indent_after ts 0) (False \<or> ate_line ts) (m_CurrentLine r + lines_in ts)
         = EndOfStream st' (m_CurrentLine r + lines_in ts + int (count_list tail (CHR 0x0A)))"
    and ef: "eofbit st'" and em: "chars st' = []"
    by auto
  from DiscardLoop_blanks_then [OF g ch wf, of 0 False "m_CurrentLine r"] l1
  have l: "DiscardLoop st 0 False (m_CurrentLine r)
         = EndOfStream st' (m_CurrentLine r + lines_in ts + int (count_list tail (CHR 0x0A)))"
    by simp
  from DiscardEmptySpace_EndOfStream(1) [OF c s l] ef em show ?thesis by blast
qed

lemma BlockCommentScan_eof:
  "BlockCommentScan cs line = (rest5, True, f, line') \<Longrightarrow> \<not> has_close cs"
proof (induction cs arbitrary: line)
  case Nil
  show ?case by simp
next
  case (Cons c cs)
  show ?case
  proof (cases cs)
    case Nil
    then show ?thesis by simp
  next
    case (Cons d ds)
    show ?thesis
    proof (cases "c = CHR ''*''")
      case True
      note star = True
      show ?thesis
      proof (cases "d = CHR ''/''")
        case True
        with star Cons Cons.prems show ?thesis by simp
      next
        case False
        with star Cons Cons.prems have "BlockCommentScan cs line = (rest5, True, f, line')"
          by simp
        from Cons.IH [OF this] False Cons show ?thesis by simp
      qed
    next
      case False
      with Cons.prems have
        "BlockCommentScan cs (if c = CHR 0x0A then line + 1 else line) = (rest5, True, f, line')"
        by simp
      from Cons.IH [OF this] False Cons show ?thesis by simp
    qed
  qed
qed

lemma DiscardStep_Continue_end:
  assumes "DiscardStep st indent ateLine line = Continue st2 indent2 ateLine2 line2"
    and "good st" and "\<not> good st2"
  shows "at_end (chars st)"
proof (cases "chars st")
  case Nil
  with assms show ?thesis by (simp add: DiscardStep_empty)
next
  case (Cons c cs)
  note step = assms(1) [unfolded DiscardStep_good [OF assms(2) Cons]]
  consider (sp) "c = CHR '' ''" | (tab) "c = CHR 0x09" | (nl) "c = CHR 0x0A" | (cr) "c = CHR 0x0D"
    | (line) "c = CHR ''/''" "cs \<noteq> []" "hd cs = CHR ''/''"
    | (block) "c = CHR ''/''" "cs \<noteq> []" "hd cs = CHR ''*''"
    using step by (auto split: if_splits)
  then show ?thesis
  proof cases
    case sp
    with step Cons have "st2 = st\<lparr>chars := cs\<rparr>" by simp
    with assms(2,3) show ?thesis by simp
  next
    case tab
    with step Cons have "st2 = st\<lparr>chars := cs\<rparr>" by simp
    with assms(2,3) show ?thesis by simp
  next
    case nl
    with step Cons have "st2 = st\<lparr>chars := cs\<rparr>" by simp
    with assms(2,3) show ?thesis by simp
  next
    case cr
    with step Cons have "st2 = st\<lparr>chars := cs\<rparr>" by simp
    with assms(2,3) show ?thesis by simp
  next
    case line
    with step have s2: "st2 = LineComment (st\<lparr>chars := cs\<rparr>)" by simp
    have em: "SkipToLineEnd cs = []"
    proof (rule ccontr)
      assume ne: "SkipToLineEnd cs \<noteq> []"
      have "st2 = st\<lparr>chars := SkipToLineEnd cs\<rparr>"
        using s2 ne good_flags_update [OF assms(2), of "SkipToLineEnd cs"]
        by (simp add: LineComment_def)
      with assms(2,3) show False by simp
    qed
    from SkipToLineEnd_split [of cs] obtain pre where
      p: "cs = pre @ SkipToLineEnd cs" "CHR 0x0A \<notin> set pre" "CHR 0x0D \<notin> set pre"
      by blast
    from p em have nb: "CHR 0x0A \<notin> set cs" "CHR 0x0D \<notin> set cs" by simp_all
    from line(2) obtain d ds where d: "cs = d # ds" by (cases cs) auto
    with line(3) nb have "d = CHR ''/'' \<and> CHR 0x0A \<notin> set ds \<and> CHR 0x0D \<notin> set ds" by simp
    with Cons line(1) d show ?thesis by (simp add: at_end_def)
  next
    case block
    let ?bc = "fst (BlockComment (st\<lparr>chars := cs\<rparr>) line)"
    obtain rest5 e f line' where scan: "BlockCommentScan cs line = (rest5, e, f, line')"
      by (cases "BlockCommentScan cs line") auto
    then have bc: "?bc = st\<lparr>chars := rest5, eofbit := e, failbit := f\<rparr>"
      by (simp add: BlockComment_def)
    from step block have s2: "st2 = (if eofbit ?bc then ?bc else ignore1 ?bc)" by simp
    have e
    proof (rule ccontr)
      assume ne: "\<not> e"
      with scan have "BlockCommentScan cs line = (rest5, False, f, line')" by simp
      from BlockCommentScan_found [OF this] obtain xs rest6 where
        x: "cs = xs @ ''*/'' @ rest6" "rest5 = CHR ''/'' # rest6" "\<not> f"
        by blast
      have bc': "?bc = st\<lparr>chars := CHR ''/'' # rest6\<rparr>"
        using bc x(2,3) ne good_flags_update [OF assms(2), of "CHR ''/'' # rest6"] by simp
      have "st2 = st\<lparr>chars := rest6\<rparr>"
        using s2 bc' assms(2) by (simp add: ignore1_def good_def)
      with assms(2,3) show False by simp
    qed
    with scan have "BlockCommentScan cs line = (rest5, True, f, line')" by simp
    from BlockCommentScan_eof [OF this] have nh: "\<not> has_close cs" .
    from block(2) obtain d ds where d: "cs = d # ds" by (cases cs) auto
    with block(3) have "d = CHR ''*''" by simp
    with Cons block(1) d nh show ?thesis by (simp add: at_end_def)
  qed
qed

lemma DiscardLoop_EndOfStream_blanks:
  "DiscardLoop st indent ateLine line = EndOfStream st' line' \<Longrightarrow> good st \<Longrightarrow>
   \<exists>ts tail. chars st = concat (map render ts) @ tail \<and> wf_blanks ts tail \<and> at_end tail"
proof (induction st indent ateLine line rule: DiscardLoop.induct)
  case (1 st indent ateLine line)
  note loop = "1.prems"(1) and g = "1.prems"(2)
  show ?case
  proof (cases "DiscardStep st indent ateLine line")
    case (Stop res)
    with loop have r: "DiscardStep st indent ateLine line = Stop (EndOfStream st' line')"
      by (simp add: DiscardLoop.simps [of st])
    have "chars st = []"
    proof (cases "chars st")
      case Nil
      then show ?thesis .
    next
      case (Cons c cs)
      from r show ?thesis
        unfolding DiscardStep_good [OF g Cons] by (simp split: if_splits)
    qed
    then have "chars st = concat (map render []) @ [] \<and> wf_blanks [] [] \<and> at_end []"
      by (simp add: at_end_def)
    then show ?thesis by blast
  next
    case (Continue st2 indent2 ateLine2 line2)
    with loop have l2: "DiscardLoop st2 indent2 ateLine2 line2 = EndOfStream st' line'"
      by (simp add: DiscardLoop.simps [of st])
    show ?thesis
    proof (cases "good st2")
      case False
      from DiscardStep_Continue_end [OF Continue g False]
      have "chars st = concat (map render []) @ chars st \<and> wf_blanks [] (chars st) \<and>
            at_end (chars st)"
        by simp
      then show ?thesis by blast
    next
      case True
      from "1.IH" [OF Continue l2 True] obtain ts tail where
        t: "chars st2 = concat (map render ts) @ tail" "wf_blanks ts tail" "at_end tail"
        by blast
      from DiscardStep_Continue_blank [OF Continue g True] obtain b where
        b: "chars st = render b @ chars st2" "wf_blanks [b] (chars st2)"
        by blast
      have "render b @ chars st2 = concat (map render (b # ts)) @ tail"
        by (simp only: t(1) list.map concat.simps append_assoc)
      then have "chars st = concat (map render (b # ts)) @ tail"
        by (simp only: b(1))
      moreover have "wf_blanks (b # ts) tail"
      proof (rule wf_blanks_ConsI)
        from b(2) show "wf_blanks [b] (concat (map render ts) @ tail)"
          by (simp only: t(1))
      next
        from t(2) show "wf_blanks ts tail" .
      qed
      ultimately show ?thesis using t(3) by blast
    qed
  qed
qed

lemma DiscardEmptySpace_False_blanks:
  assumes c: "cur_stream r = Some st" and g: "good st"
    and des: "DiscardEmptySpace r = Inr (False, r')"
  shows "\<exists>ts tail. chars st = concat (map render ts) @ tail \<and> wf_blanks ts tail \<and> at_end tail"
proof (cases "DiscardLoop st 0 False (m_CurrentLine r)")
  case (Content st1 indent ateLine line)
  with des c show ?thesis by (simp add: DiscardEmptySpace.simps [of r])
next
  case (Junk st1 line)
  with des c show ?thesis
    by (simp add: DiscardEmptySpace.simps [of r] ReportError_def RTEAbort_def)
next
  case (EndOfStream st1 line)
  from DiscardLoop_EndOfStream_blanks [OF EndOfStream g] show ?thesis .
qed

text \<open>
  C5. Terminal end of input. \<open>EndIncludeFile\<close> on an empty stack sets \<open>m_EndOfStreams\<close>
  and returns false. With the stack empty, every skip that comes to the end of the stream
  does so: \<open>DiscardEmptySpace\<close> and \<open>NextProperty\<close> return false and the Reader is then
  \<open>finished\<close>. These are the skips of a readable stream that holds, up to its end, only
  spaces, tabs, line breaks and comments (the last comment may lack its line break or its
  closing), also after lines were eaten, and the line counter has then counted the
  newlines; and whenever \<open>DiscardEmptySpace\<close> returns false the Reader is finished and a
  readable stream held nothing else. From a finished Reader every run of \<open>NextProperty\<close>
  calls returns false each time, and \<open>ReadPropValue\<close> and \<open>ReadPropName\<close> return the
  empty string, all leaving it finished. In any state with \<open>m_EndOfStreams\<close> set, a
  \<open>NextProperty\<close> that returns returns false, and none of \<open>DiscardEmptySpace\<close>,
  \<open>EndIncludeFile\<close>, \<open>ReadLine\<close>, \<open>ReadPropValue\<close>, \<open>StartIncludeFile\<close> and
  \<open>ReadPropName\<close> returns with the flag cleared.
\<close>

theorem end_of_input_is_terminal:
  "(m_StreamStack r = [] \<longrightarrow> EndIncludeFile r = Inr (False, r\<lparr>m_EndOfStreams := True\<rparr>)) \<and>
   (m_StreamStack r = [] \<and> cur_stream r = Some st \<and> eofbit (snd (peek st)) \<longrightarrow>
      (\<exists>r'. DiscardEmptySpace r = Inr (False, r') \<and> finished r')) \<and>
   (m_StreamStack r = [] \<and> cur_stream r = Some st \<and>
    DiscardLoop st 0 False (m_CurrentLine r) = EndOfStream st' line \<longrightarrow>
      DiscardEmptySpace r
        = Inr (False, (set_stream st' (r\<lparr>m_CurrentLine := line\<rparr>))\<lparr>m_EndOfStreams := True\<rparr>) \<and>
      NextProperty r
        = Inr (False, (set_stream st' (r\<lparr>m_CurrentLine := line\<rparr>))\<lparr>m_EndOfStreams := True\<rparr>) \<and>
      finished ((set_stream st' (r\<lparr>m_CurrentLine := line\<rparr>))\<lparr>m_EndOfStreams := True\<rparr>)) \<and>
   (m_StreamStack r = [] \<and> cur_stream r = Some st \<and> good st \<and>
    chars st = concat (map render ts) @ tail \<and> wf_blanks ts tail \<and> at_end tail \<longrightarrow>
      (\<exists>r'. DiscardEmptySpace r = Inr (False, r') \<and> NextProperty r = Inr (False, r') \<and>
            finished r' \<and>
            m_CurrentLine r'
              = m_CurrentLine r + lines_in ts + int (count_list tail (CHR 0x0A)))) \<and>
   (\<forall>r'. DiscardEmptySpace r = Inr (False, r') \<longrightarrow>
      finished r' \<and>
      (cur_stream r = Some st \<and> good st \<longrightarrow>
         (\<exists>skipped rest. chars st = concat (map render skipped) @ rest \<and>
            wf_blanks skipped rest \<and> at_end rest))) \<and>
   (finished r \<longrightarrow>
      (\<forall>n. \<exists>r'. NextProperty_n n r = Inr (replicate n False, r') \<and> finished r') \<and>
      (\<exists>r'. ReadPropValue r = Inr ([], r') \<and> finished r') \<and>
      (\<exists>r'. ReadPropName (Suc fuel) files r = Some (Inr ([], r')) \<and> finished r')) \<and>
   (m_EndOfStreams r \<longrightarrow>
      (\<forall>b r'. NextProperty r = Inr (b, r') \<longrightarrow> \<not> b \<and> m_EndOfStreams r') \<and>
      (\<forall>b r'. DiscardEmptySpace r = Inr (b, r') \<longrightarrow> m_EndOfStreams r') \<and>
      (\<forall>b r'. EndIncludeFile r = Inr (b, r') \<longrightarrow> m_EndOfStreams r') \<and>
      (\<forall>v r'. ReadLine r = Inr (v, r') \<longrightarrow> m_EndOfStreams r') \<and>
      (\<forall>v r'. ReadPropValue r = Inr (v, r') \<longrightarrow> m_EndOfStreams r') \<and>
      (\<forall>b r'. StartIncludeFile files r = Inr (b, r') \<longrightarrow> m_EndOfStreams r') \<and>
      (\<forall>n v r'. ReadPropName n files r = Some (Inr (v, r')) \<longrightarrow> m_EndOfStreams r'))"
proof -
  have a: "m_StreamStack r = [] \<longrightarrow> EndIncludeFile r = Inr (False, r\<lparr>m_EndOfStreams := True\<rparr>)"
    by (simp add: EndIncludeFile_empty_stack)
  have b: "m_StreamStack r = [] \<and> cur_stream r = Some st \<and> eofbit (snd (peek st)) \<longrightarrow>
      (\<exists>r'. DiscardEmptySpace r = Inr (False, r') \<and> finished r')"
    using DiscardEmptySpace_at_eof [of r st] finished_set_stream [of r st "snd (peek st)"] by blast
  have e: "m_StreamStack r = [] \<and> cur_stream r = Some st \<and>
    DiscardLoop st 0 False (m_CurrentLine r) = EndOfStream st' line \<longrightarrow>
      DiscardEmptySpace r
        = Inr (False, (set_stream st' (r\<lparr>m_CurrentLine := line\<rparr>))\<lparr>m_EndOfStreams := True\<rparr>) \<and>
      NextProperty r
        = Inr (False, (set_stream st' (r\<lparr>m_CurrentLine := line\<rparr>))\<lparr>m_EndOfStreams := True\<rparr>) \<and>
      finished ((set_stream st' (r\<lparr>m_CurrentLine := line\<rparr>))\<lparr>m_EndOfStreams := True\<rparr>)"
  proof (intro impI)
    assume h: "m_StreamStack r = [] \<and> cur_stream r = Some st \<and>
      DiscardLoop st 0 False (m_CurrentLine r) = EndOfStream st' line"
    then have s: "m_StreamStack r = []" and c: "cur_stream r = Some st"
      and l: "DiscardLoop st 0 False (m_CurrentLine r) = EndOfStream st' line" by blast+
    note d = DiscardEmptySpace_EndOfStream [OF c s l]
    from d(1) have "NextProperty r
        = Inr (False, (set_stream st' (r\<lparr>m_CurrentLine := line\<rparr>))\<lparr>m_EndOfStreams := True\<rparr>)"
      by (simp add: NextProperty_def)
    with d show "DiscardEmptySpace r
        = Inr (False, (set_stream st' (r\<lparr>m_CurrentLine := line\<rparr>))\<lparr>m_EndOfStreams := True\<rparr>) \<and>
      NextProperty r
        = Inr (False, (set_stream st' (r\<lparr>m_CurrentLine := line\<rparr>))\<lparr>m_EndOfStreams := True\<rparr>) \<and>
      finished ((set_stream st' (r\<lparr>m_CurrentLine := line\<rparr>))\<lparr>m_EndOfStreams := True\<rparr>)"
      by blast
  qed
  have f: "m_StreamStack r = [] \<and> cur_stream r = Some st \<and> good st \<and>
    chars st = concat (map render ts) @ tail \<and> wf_blanks ts tail \<and> at_end tail \<longrightarrow>
      (\<exists>r'. DiscardEmptySpace r = Inr (False, r') \<and> NextProperty r = Inr (False, r') \<and>
            finished r' \<and>
            m_CurrentLine r'
              = m_CurrentLine r + lines_in ts + int (count_list tail (CHR 0x0A)))"
  proof (intro impI)
    assume h: "m_StreamStack r = [] \<and> cur_stream r = Some st \<and> good st \<and>
      chars st = concat (map render ts) @ tail \<and> wf_blanks ts tail \<and> at_end tail"
    then have s: "m_StreamStack r = []" and c: "cur_stream r = Some st" and g: "good st"
      and ch: "chars st = concat (map render ts) @ tail" and wf: "wf_blanks ts tail"
      and en: "at_end tail" by blast+
    from DiscardEmptySpace_at_end [OF c g s ch wf en] obtain st2 where
      d: "DiscardEmptySpace r
             = Inr (False,
                 (set_stream st2
                    (r\<lparr>m_CurrentLine :=
                         m_CurrentLine r + lines_in ts + int (count_list tail (CHR 0x0A))\<rparr>))
                   \<lparr>m_EndOfStreams := True\<rparr>)"
      by blast
    let ?r' = "(set_stream st2
                    (r\<lparr>m_CurrentLine :=
                         m_CurrentLine r + lines_in ts + int (count_list tail (CHR 0x0A))\<rparr>))
                   \<lparr>m_EndOfStreams := True\<rparr>"
    from d have n: "NextProperty r = Inr (False, ?r')" by (simp add: NextProperty_def)
    from DiscardEmptySpace_False_finished [OF d] have fin: "finished ?r'" .
    have "m_CurrentLine ?r'
            = m_CurrentLine r + lines_in ts + int (count_list tail (CHR 0x0A))"
      by simp
    with d n fin show "\<exists>r'. DiscardEmptySpace r = Inr (False, r') \<and> NextProperty r = Inr (False, r') \<and>
            finished r' \<and>
            m_CurrentLine r'
              = m_CurrentLine r + lines_in ts + int (count_list tail (CHR 0x0A))"
      by blast
  qed
  have g: "\<forall>r'. DiscardEmptySpace r = Inr (False, r') \<longrightarrow>
      finished r' \<and>
      (cur_stream r = Some st \<and> good st \<longrightarrow>
         (\<exists>skipped rest. chars st = concat (map render skipped) @ rest \<and>
            wf_blanks skipped rest \<and> at_end rest))"
    using DiscardEmptySpace_False_finished [of r] DiscardEmptySpace_False_blanks [of r st]
    by blast
  have c: "finished r \<longrightarrow>
      (\<forall>n. \<exists>r'. NextProperty_n n r = Inr (replicate n False, r') \<and> finished r') \<and>
      (\<exists>r'. ReadPropValue r = Inr ([], r') \<and> finished r') \<and>
      (\<exists>r'. ReadPropName (Suc fuel) files r = Some (Inr ([], r')) \<and> finished r')"
    using finished_NextProperty_n [of r] finished_ReadPropValue [of r]
      finished_ReadPropName [of r fuel files] by blast
  have d: "m_EndOfStreams r \<longrightarrow>
      (\<forall>b r'. NextProperty r = Inr (b, r') \<longrightarrow> \<not> b \<and> m_EndOfStreams r') \<and>
      (\<forall>b r'. DiscardEmptySpace r = Inr (b, r') \<longrightarrow> m_EndOfStreams r') \<and>
      (\<forall>b r'. EndIncludeFile r = Inr (b, r') \<longrightarrow> m_EndOfStreams r') \<and>
      (\<forall>v r'. ReadLine r = Inr (v, r') \<longrightarrow> m_EndOfStreams r') \<and>
      (\<forall>v r'. ReadPropValue r = Inr (v, r') \<longrightarrow> m_EndOfStreams r') \<and>
      (\<forall>b r'. StartIncludeFile files r = Inr (b, r') \<longrightarrow> m_EndOfStreams r') \<and>
      (\<forall>n v r'. ReadPropName n files r = Some (Inr (v, r')) \<longrightarrow> m_EndOfStreams r')"
    using NextProperty_after_end [of r] EndOfStreams_kept [of r]
      ReadLine_EndOfStreams_kept [of r] ReadPropValue_EndOfStreams_kept [of r]
      StartIncludeFile_EndOfStreams_kept [of files r]
      ReadPropName_EndOfStreams_kept [of _ files r]
    by blast
  from a b e f g c d show ?thesis by (intro conjI)
qed

theorem end_of_input_is_terminal_witness:
  "DiscardEmptySpace (opened ''Base.rte/Index.ini'' ([CHR 0x09] @ ''// end'' @ [CHR 0x0A]))
     = Inr (False,
        (opened ''Base.rte/Index.ini'' [])
          \<lparr>streams := [Some \<lparr>chars = [], eofbit = True, failbit = False\<rparr>],
           m_CurrentLine := 2, m_EndOfStreams := True\<rparr>) \<and>
   NextProperty (opened ''Base.rte/Index.ini'' ([CHR 0x09] @ ''// end'' @ [CHR 0x0A]))
     = Inr (False,
        (opened ''Base.rte/Index.ini'' [])
          \<lparr>streams := [Some \<lparr>chars = [], eofbit = True, failbit = False\<rparr>],
           m_CurrentLine := 2, m_EndOfStreams := True\<rparr>) \<and>
   finished ((opened ''Base.rte/Index.ini'' [])
          \<lparr>streams := [Some \<lparr>chars = [], eofbit = True, failbit = False\<rparr>],
           m_CurrentLine := 2, m_EndOfStreams := True\<rparr>) \<and>
   NextProperty_n 3 ((opened ''Base.rte/Index.ini'' [])
          \<lparr>streams := [Some \<lparr>chars = [], eofbit = True, failbit = False\<rparr>],
           m_CurrentLine := 2, m_EndOfStreams := True\<rparr>)
     = Inr ([False, False, False],
        (opened ''Base.rte/Index.ini'' [])
          \<lparr>streams := [Some \<lparr>chars = [], eofbit = True, failbit = True\<rparr>],
           m_CurrentLine := 2, m_EndOfStreams := True\<rparr>)"
proof -
  let ?text = "[CHR 0x09] @ ''// end'' @ [CHR 0x0A]"
  let ?ts = "[Tab, LineRemark '' end'', Newline]"
  let ?ini = "opened ''Base.rte/Index.ini'' ?text"
  let ?st = "\<lparr>chars = ?text, eofbit = False, failbit = False\<rparr>"
  let ?fin = "(opened ''Base.rte/Index.ini'' [])
          \<lparr>streams := [Some \<lparr>chars = [], eofbit = True, failbit = False\<rparr>],
           m_CurrentLine := 2, m_EndOfStreams := True\<rparr>"
  let ?fin2 = "(opened ''Base.rte/Index.ini'' [])
          \<lparr>streams := [Some \<lparr>chars = [], eofbit = True, failbit = True\<rparr>],
           m_CurrentLine := 2, m_EndOfStreams := True\<rparr>"
  have h1: "m_StreamStack ?ini = [] \<and> cur_stream ?ini = Some ?st \<and> good ?st \<and>
            chars ?st = concat (map render ?ts) @ [] \<and> wf_blanks ?ts [] \<and> at_end []"
    by (simp add: opened_def cur_stream_def good_def at_end_def)
  note skip = end_of_input_is_terminal [where r = ?ini and st = ?st and ts = ?ts and tail = "[]",
      THEN conjunct2, THEN conjunct2, THEN conjunct2, THEN conjunct1, THEN mp, OF h1]
  from skip obtain r' where d: "DiscardEmptySpace ?ini = Inr (False, r')"
    and n: "NextProperty ?ini = Inr (False, r')" and f: "finished r'"
    by blast
  have e1: "DiscardEmptySpace ?ini = Inr (False, ?fin)" by code_simp
  with d have r': "r' = ?fin" by simp
  from f r' have fin: "finished ?fin" by simp
  have e2: "NextProperty_n 3 ?fin = Inr ([False, False, False], ?fin2)" by code_simp
  note after = end_of_input_is_terminal [where r = ?fin,
      THEN conjunct2, THEN conjunct2, THEN conjunct2, THEN conjunct2, THEN conjunct2,
      THEN conjunct1, THEN mp, OF fin, THEN conjunct1, THEN spec, of 3]
  from after have
    "\<exists>r'. NextProperty_n 3 ?fin = Inr (replicate 3 False, r') \<and> finished r'" .
  with e1 n f r' e2 show ?thesis by simp
qed

subsection \<open>Include files\<close>

lemma DiscardEmptySpace_invalid:
  "cur_stream r = None \<Longrightarrow> DiscardEmptySpace r = Inl InvalidStream"
  by (simp add: DiscardEmptySpace.simps [of r])

lemma DiscardEmptySpace_keeps_aliased_frame:
  assumes "DiscardEmptySpace r = Inr (b, r')" "m_StreamStack r = f # fs" "si_pStream f = m_pStream r"
  shows "m_StreamStack r' = m_StreamStack r \<and> m_pStream r' = m_pStream r"
proof -
  from assms(1) obtain st0 where c: "cur_stream r = Some st0"
    by (cases "cur_stream r") (simp_all add: DiscardEmptySpace.simps [of r])
  show ?thesis
  proof (cases "DiscardLoop st0 0 False (m_CurrentLine r)")
    case (Content st1 indent ateLine line)
    with assms(1) c show ?thesis
      by (auto simp: DiscardEmptySpace.simps [of r] split: if_splits)
  next
    case (Junk st1 line)
    with assms(1) c show ?thesis
      by (simp add: DiscardEmptySpace.simps [of r] ReportError_def RTEAbort_def)
  next
    case (EndOfStream st1 line)
    let ?r2 = "set_stream st1 (r\<lparr>m_CurrentLine := line\<rparr>)"
    let ?r3 = "(delete_stream ?r2)
                 \<lparr>m_pStream := si_pStream f,
                  m_FilePath := si_FilePath f,
                  m_CurrentLine := si_CurrentLine f,
                  m_PreviousIndent := m_PreviousIndent ?r2 + si_PreviousIndent f,
                  m_StreamStack := fs,
                  m_FileName := FileNameOf (si_FilePath f)\<rparr>"
    have c2: "cur_stream ?r2 = Some st1"
      using c by (auto simp: cur_stream_def set_stream_def split: if_splits)
    have "cur_stream ?r3 = None"
      using c assms(3) by (auto simp: cur_stream_def set_stream_def delete_stream_def split: if_splits)
    then have "DiscardEmptySpace ?r3 = Inl InvalidStream"
      by (rule DiscardEmptySpace_invalid)
    then have "EndIncludeFile ?r2 = Inl InvalidStream"
      using assms(2) c2 by (simp add: EndIncludeFile.simps [of ?r2])
    with assms(1) c EndOfStream show ?thesis
      by (simp add: DiscardEmptySpace.simps [of r])
  qed
qed

lemma ReadLine_keeps_aliased_frame:
  assumes "ReadLine r = Inr (v, r')" "m_StreamStack r = f # fs" "si_pStream f = m_pStream r"
  shows "m_StreamStack r' = m_StreamStack r \<and> m_pStream r' = m_pStream r"
proof (cases "DiscardEmptySpace r")
  case (Inl e)
  with assms(1) show ?thesis by (simp add: ReadLine_def)
next
  case (Inr p)
  obtain b r1 where p: "p = (b, r1)" by (cases p)
  with Inr have d: "DiscardEmptySpace r = Inr (b, r1)" by simp
  from DiscardEmptySpace_keeps_aliased_frame [OF d assms(2,3)]
  have k: "m_StreamStack r1 = m_StreamStack r \<and> m_pStream r1 = m_pStream r" .
  show ?thesis
  proof (cases "cur_stream r1")
    case None
    with assms(1) d show ?thesis by (simp add: ReadLine_def)
  next
    case (Some st)
    show ?thesis
    proof (cases "ReadLineLoop (snd (peek st)) (as_char (fst (peek st))) []")
      case (LineDone st' ret)
      with assms(1) d Some k show ?thesis by (auto simp: ReadLine_def set_stream_def)
    next
      case (LineFailed st')
      with assms(1) d Some show ?thesis
        by (simp add: ReadLine_def ReportError_def RTEAbort_def)
    qed
  qed
qed

lemma ReadPropValue_keeps_aliased_frame:
  assumes "ReadPropValue r = Inr (v, r')" "m_StreamStack r = f # fs" "si_pStream f = m_pStream r"
  shows "m_StreamStack r' = m_StreamStack r \<and> m_pStream r' = m_pStream r"
proof (cases "ReadLine r")
  case (Inl e)
  with assms(1) show ?thesis by (simp add: ReadPropValue_def)
next
  case (Inr p)
  obtain l r1 where p: "p = (l, r1)" by (cases p)
  with Inr have rl: "ReadLine r = Inr (l, r1)" by simp
  with assms(1) have "r' = r1"
    by (auto simp: ReadPropValue_def Let_def split: sum.splits)
  with ReadLine_keeps_aliased_frame [OF rl assms(2,3)] show ?thesis by simp
qed

lemma StartIncludeFile_missing_file:
  assumes "ReadPropValue
             (r\<lparr>m_StreamStack :=
                  \<lparr>si_pStream = m_pStream r, si_FilePath = m_FilePath r,
                   si_CurrentLine = m_CurrentLine r, si_PreviousIndent = m_PreviousIndent r\<rparr>
                  # m_StreamStack r\<rparr>) = Inr (path, r1)"
    and "files path = None"
  shows "StartIncludeFile files r =
           Inl (Abort ''Failed to open included data file'' (m_FilePath r) (m_CurrentLine r))"
proof -
  have "m_StreamStack r1 =
          \<lparr>si_pStream = m_pStream r, si_FilePath = m_FilePath r,
           si_CurrentLine = m_CurrentLine r, si_PreviousIndent = m_PreviousIndent r\<rparr>
          # m_StreamStack r"
    using ReadPropValue_keeps_aliased_frame [OF assms(1)] by simp
  then show ?thesis
    using assms
    by (simp add: StartIncludeFile_def Let_def ifstream_def ReportError_def RTEAbort_def
        delete_stream_def)
qed

text \<open>
  C2. An \<^verbatim>\<open>IncludeFile\<close> property whose file cannot be opened. The spec, and the comments
  in \<^verbatim>\<open>ReadPropName\<close> and \<^verbatim>\<open>StartIncludeFile\<close>, say that the failure is not fatal and
  that the next property name of the parent file is returned instead. The code restores
  the parent frame and then calls \<^verbatim>\<open>ReportError\<close>, which aborts with the parent's path
  and line (\<open>StartIncludeFile_missing_file\<close>), so the statements that would resume
  reading are never run: on the file below \<open>ReadPropName\<close> ends in the abort and
  \<^verbatim>\<open>PropA\<close> is never returned.
\<close>

theorem missing_include_file_aborts:
  "ReadPropName 2 (\<lambda>path. None)
     (opened ''Base.rte/Index.ini'' (''IncludeFile = Missing.ini'' @ [CHR 0x0A] @ ''PropA = 1''))
   = Some (Inl (Abort ''Failed to open included data file'' ''Base.rte/Index.ini'' 1))"
  by code_simp

lemma DiscardEmptySpace_end_of_stream:
  assumes "cur_stream r = Some st" "eofbit (snd (peek st))"
  shows "DiscardEmptySpace r = EndIncludeFile (set_stream (snd (peek st)) r)"
proof -
  have "r\<lparr>m_CurrentLine := m_CurrentLine r\<rparr> = r" by simp
  then show ?thesis
    using assms by (simp add: DiscardEmptySpace.simps [of r] DiscardLoop_at_eof)
qed

text \<open>
  C4. Indentation across file inclusion. When \<open>StartIncludeFile\<close> has read the path and
  the file opens, the frame of the parent (its stream pointer, path, line and previous
  indent, as they were at the call) is on top of the stack, and the Reader goes on, in the
  new stream, from line \<open>1\<close> and previous indent \<open>0\<close>: the result is that of the skip from
  there, and is that state itself when the included file starts with real content.
  \<open>DiscardEmptySpace\<close> at the end of a stream is \<open>EndIncludeFile\<close>; on a stack that is not
  empty \<open>EndIncludeFile\<close> deletes the current stream, pops the frame, takes the parent's
  stream, path and line from it and adds the frame's previous indent to
  \<open>m_PreviousIndent\<close>; the result is that of the skip from there, and is that state
  itself when the parent stream stands at real content.
\<close>

theorem include_frames:
  "(ReadPropValue
      (r\<lparr>m_StreamStack :=
           \<lparr>si_pStream = m_pStream r, si_FilePath = m_FilePath r,
            si_CurrentLine = m_CurrentLine r, si_PreviousIndent = m_PreviousIndent r\<rparr>
           # m_StreamStack r\<rparr>) = Inr (path, r1) \<and>
    files path = Some contents \<longrightarrow>
      m_StreamStack r1 =
        \<lparr>si_pStream = m_pStream r, si_FilePath = m_FilePath r,
         si_CurrentLine = m_CurrentLine r, si_PreviousIndent = m_PreviousIndent r\<rparr>
        # m_StreamStack r \<and>
      StartIncludeFile files r =
        (case DiscardEmptySpace
                (r1\<lparr>m_FilePath := path,
                    streams := streams r1 @ [Some \<lparr>chars = contents, eofbit = False, failbit = False\<rparr>],
                    m_pStream := length (streams r1),
                    m_CurrentLine := 1, m_PreviousIndent := 0,
                    m_FileName := FileNameOf path\<rparr>) of
           Inl e \<Rightarrow> Inl e
         | Inr (b, r3) \<Rightarrow> Inr (True, r3)) \<and>
      (at_content \<lparr>chars = contents, eofbit = False, failbit = False\<rparr> \<longrightarrow>
         StartIncludeFile files r =
           Inr (True,
                r1\<lparr>m_FilePath := path,
                    streams := streams r1 @ [Some \<lparr>chars = contents, eofbit = False, failbit = False\<rparr>],
                    m_pStream := length (streams r1),
                    m_CurrentLine := 1, m_PreviousIndent := 0,
                    m_FileName := FileNameOf path\<rparr>))) \<and>
   (cur_stream q = Some st \<and> eofbit (snd (peek st)) \<longrightarrow>
      DiscardEmptySpace q = EndIncludeFile (set_stream (snd (peek st)) q)) \<and>
   (m_StreamStack q = bk # rest \<and> cur_stream q = Some st \<longrightarrow>
      EndIncludeFile q =
        (case DiscardEmptySpace
                ((delete_stream q)
                   \<lparr>m_pStream := si_pStream bk,
                    m_FilePath := si_FilePath bk,
                    m_CurrentLine := si_CurrentLine bk,
                    m_PreviousIndent := m_PreviousIndent q + si_PreviousIndent bk,
                    m_StreamStack := rest,
                    m_FileName := FileNameOf (si_FilePath bk)\<rparr>) of
           Inl e \<Rightarrow> Inl e
         | Inr (b, r') \<Rightarrow> Inr (True, r')) \<and>
      (cur_stream
          ((delete_stream q)
             \<lparr>m_pStream := si_pStream bk,
              m_FilePath := si_FilePath bk,
              m_CurrentLine := si_CurrentLine bk,
              m_PreviousIndent := m_PreviousIndent q + si_PreviousIndent bk,
              m_StreamStack := rest,
              m_FileName := FileNameOf (si_FilePath bk)\<rparr>) = Some parent \<and>
       at_content parent \<longrightarrow>
         EndIncludeFile q =
           Inr (True,
                (delete_stream q)
                  \<lparr>m_pStream := si_pStream bk,
                   m_FilePath := si_FilePath bk,
                   m_CurrentLine := si_CurrentLine bk,
                   m_PreviousIndent := m_PreviousIndent q + si_PreviousIndent bk,
                   m_StreamStack := rest,
                   m_FileName := FileNameOf (si_FilePath bk)\<rparr>)))"
proof -
  let ?frame = "\<lparr>si_pStream = m_pStream r, si_FilePath = m_FilePath r,
            si_CurrentLine = m_CurrentLine r, si_PreviousIndent = m_PreviousIndent r\<rparr>"
  let ?new = "\<lparr>chars = contents, eofbit = False, failbit = False\<rparr>"
  let ?inc = "r1\<lparr>m_FilePath := path,
                    streams := streams r1 @ [Some ?new],
                    m_pStream := length (streams r1),
                    m_CurrentLine := 1, m_PreviousIndent := 0,
                    m_FileName := FileNameOf path\<rparr>"
  let ?res = "(delete_stream q)
                   \<lparr>m_pStream := si_pStream bk,
                    m_FilePath := si_FilePath bk,
                    m_CurrentLine := si_CurrentLine bk,
                    m_PreviousIndent := m_PreviousIndent q + si_PreviousIndent bk,
                    m_StreamStack := rest,
                    m_FileName := FileNameOf (si_FilePath bk)\<rparr>"
  have start: "m_StreamStack r1 = ?frame # m_StreamStack r \<and>
      StartIncludeFile files r =
        (case DiscardEmptySpace ?inc of Inl e \<Rightarrow> Inl e | Inr (b, r3) \<Rightarrow> Inr (True, r3)) \<and>
      (at_content ?new \<longrightarrow> StartIncludeFile files r = Inr (True, ?inc))"
    if v: "ReadPropValue (r\<lparr>m_StreamStack := ?frame # m_StreamStack r\<rparr>) = Inr (path, r1)"
      and f: "files path = Some contents"
  proof -
    have stack: "m_StreamStack r1 = ?frame # m_StreamStack r"
      using ReadPropValue_keeps_aliased_frame [OF v] by simp
    have eq: "StartIncludeFile files r =
        (case DiscardEmptySpace ?inc of Inl e \<Rightarrow> Inl e | Inr (b, r3) \<Rightarrow> Inr (True, r3))"
      using v f by (simp add: StartIncludeFile_def Let_def ifstream_def)
    have cur: "cur_stream ?inc = Some ?new"
      by (simp add: cur_stream_def)
    have "at_content ?new \<longrightarrow> StartIncludeFile files r = Inr (True, ?inc)"
      using DiscardEmptySpace_at_content [OF cur] eq by simp
    with stack eq show ?thesis by blast
  qed
  have eos: "DiscardEmptySpace q = EndIncludeFile (set_stream (snd (peek st)) q)"
    if "cur_stream q = Some st" "eofbit (snd (peek st))"
    using DiscardEmptySpace_end_of_stream [OF that] .
  have fin: "EndIncludeFile q =
        (case DiscardEmptySpace ?res of Inl e \<Rightarrow> Inl e | Inr (b, r') \<Rightarrow> Inr (True, r')) \<and>
      (cur_stream ?res = Some parent \<and> at_content parent \<longrightarrow>
         EndIncludeFile q = Inr (True, ?res))"
    if s: "m_StreamStack q = bk # rest" and c: "cur_stream q = Some st"
  proof -
    have eq: "EndIncludeFile q =
        (case DiscardEmptySpace ?res of Inl e \<Rightarrow> Inl e | Inr (b, r') \<Rightarrow> Inr (True, r'))"
      using s c by (simp add: EndIncludeFile.simps [of q])
    have "cur_stream ?res = Some parent \<and> at_content parent \<longrightarrow>
         EndIncludeFile q = Inr (True, ?res)"
      using DiscardEmptySpace_at_content [of ?res parent] eq by simp
    with eq show ?thesis by blast
  qed
  from start eos fin show ?thesis by blast
qed

theorem include_frames_witness:
  "StartIncludeFile (\<lambda>p. if p = ''Base.rte/Other.ini'' then Some ''PropA = 1'' else None)
     ((opened ''Base.rte/Index.ini'' ('' Base.rte/Other.ini'' @ [CHR 0x0A] @ ''PropB = 2''))
        \<lparr>m_PreviousIndent := 1\<rparr>)
   = Inr (True,
       \<lparr>streams = [Some \<lparr>chars = CHR 0x0A # ''PropB = 2'', eofbit = False, failbit = False\<rparr>,
                   Some \<lparr>chars = ''PropA = 1'', eofbit = False, failbit = False\<rparr>],
        m_pStream = 1, m_FilePath = ''Base.rte/Other.ini'', m_CurrentLine = 1,
        m_StreamStack = [\<lparr>si_pStream = 0, si_FilePath = ''Base.rte/Index.ini'',
                           si_CurrentLine = 1, si_PreviousIndent = 1\<rparr>],
        m_PreviousIndent = 0, m_IndentDifference = 0, m_ObjectEndings = 0,
        m_EndOfStreams = False, m_FileName = ''Other.ini'', m_SkipIncludes = False\<rparr>) \<and>
   EndIncludeFile
     \<lparr>streams = [Some \<lparr>chars = ''PropB = 2'', eofbit = False, failbit = False\<rparr>,
                 Some \<lparr>chars = [], eofbit = True, failbit = False\<rparr>],
      m_pStream = 1, m_FilePath = ''Base.rte/Other.ini'', m_CurrentLine = 2,
      m_StreamStack = [\<lparr>si_pStream = 0, si_FilePath = ''Base.rte/Index.ini'',
                         si_CurrentLine = 1, si_PreviousIndent = 1\<rparr>],
      m_PreviousIndent = 2, m_IndentDifference = 0, m_ObjectEndings = 0,
      m_EndOfStreams = False, m_FileName = ''Other.ini'', m_SkipIncludes = False\<rparr>
   = Inr (True,
       \<lparr>streams = [Some \<lparr>chars = ''PropB = 2'', eofbit = False, failbit = False\<rparr>, None],
        m_pStream = 0, m_FilePath = ''Base.rte/Index.ini'', m_CurrentLine = 1,
        m_StreamStack = [],
        m_PreviousIndent = 3, m_IndentDifference = 0, m_ObjectEndings = 0,
        m_EndOfStreams = False, m_FileName = ''Index.ini'', m_SkipIncludes = False\<rparr>)"
proof -
  let ?files = "\<lambda>p. if p = ''Base.rte/Other.ini'' then Some ''PropA = 1'' else None"
  let ?ini = "(opened ''Base.rte/Index.ini'' ('' Base.rte/Other.ini'' @ [CHR 0x0A] @ ''PropB = 2''))
        \<lparr>m_PreviousIndent := 1\<rparr>"
  let ?frame = "\<lparr>si_pStream = 0, si_FilePath = ''Base.rte/Index.ini'',
                           si_CurrentLine = 1, si_PreviousIndent = 1\<rparr>"
  let ?mid = "(opened ''Base.rte/Index.ini'' (CHR 0x0A # ''PropB = 2''))
        \<lparr>m_PreviousIndent := 1, m_StreamStack := [?frame]\<rparr>"
  let ?child = "\<lparr>chars = [], eofbit = True, failbit = False\<rparr>"
  let ?parent = "\<lparr>chars = ''PropB = 2'', eofbit = False, failbit = False\<rparr>"
  let ?q = "\<lparr>streams = [Some ?parent, Some ?child],
      m_pStream = 1, m_FilePath = ''Base.rte/Other.ini'', m_CurrentLine = 2,
      m_StreamStack = [?frame],
      m_PreviousIndent = 2, m_IndentDifference = 0, m_ObjectEndings = 0,
      m_EndOfStreams = False, m_FileName = ''Other.ini'', m_SkipIncludes = False\<rparr>"
  have v: "ReadPropValue
      (?ini\<lparr>m_StreamStack :=
           \<lparr>si_pStream = m_pStream ?ini, si_FilePath = m_FilePath ?ini,
            si_CurrentLine = m_CurrentLine ?ini, si_PreviousIndent = m_PreviousIndent ?ini\<rparr>
           # m_StreamStack ?ini\<rparr>) = Inr (''Base.rte/Other.ini'', ?mid)"
    by code_simp
  have f: "?files ''Base.rte/Other.ini'' = Some ''PropA = 1''" by simp
  have a: "at_content \<lparr>chars = ''PropA = 1'', eofbit = False, failbit = False\<rparr>"
    by (simp add: at_content_def good_def)
  have s: "m_StreamStack ?q = ?frame # []" by simp
  have c: "cur_stream ?q = Some ?child" by (simp add: cur_stream_def)
  have p: "cur_stream
          ((delete_stream ?q)
             \<lparr>m_pStream := si_pStream ?frame,
              m_FilePath := si_FilePath ?frame,
              m_CurrentLine := si_CurrentLine ?frame,
              m_PreviousIndent := m_PreviousIndent ?q + si_PreviousIndent ?frame,
              m_StreamStack := [],
              m_FileName := FileNameOf (si_FilePath ?frame)\<rparr>) = Some ?parent"
    by (simp add: cur_stream_def delete_stream_def)
  have a2: "at_content ?parent" by (simp add: at_content_def good_def)
  note th = include_frames [of ?ini "''Base.rte/Other.ini''" ?mid ?files "''PropA = 1''"
      ?q ?child ?frame "[]" ?parent]
  from th v f a have one: "StartIncludeFile ?files ?ini =
           Inr (True,
                ?mid\<lparr>m_FilePath := ''Base.rte/Other.ini'',
                    streams := streams ?mid @ [Some \<lparr>chars = ''PropA = 1'', eofbit = False, failbit = False\<rparr>],
                    m_pStream := length (streams ?mid),
                    m_CurrentLine := 1, m_PreviousIndent := 0,
                    m_FileName := FileNameOf ''Base.rte/Other.ini''\<rparr>)"
    by blast
  from th s c p a2 have two: "EndIncludeFile ?q =
           Inr (True,
                (delete_stream ?q)
                  \<lparr>m_pStream := si_pStream ?frame,
                   m_FilePath := si_FilePath ?frame,
                   m_CurrentLine := si_CurrentLine ?frame,
                   m_PreviousIndent := m_PreviousIndent ?q + si_PreviousIndent ?frame,
                   m_StreamStack := [],
                   m_FileName := FileNameOf (si_FilePath ?frame)\<rparr>)"
    by blast
  from one two show ?thesis
    by (simp add: opened_def delete_stream_def FileNameOf_def find_first_of_def find_last_of_def)
qed

end
